theory Spec2Isabelle
  imports Main "HOL-Library.AList" "HOL-Library.Sublist"
begin

section \<open>Plain JavaScript values\<close>

text \<open>
  The values that travel between the settings cache and the storage provider are plain
  JSON-like values.  A plain object keeps its keys in insertion order, so it is an
  association list; \<open>AList.update\<close> overwrites a key in place or appends a new one, as
  a property assignment does.
\<close>

datatype jvalue =
    JNull
  | JBool bool
  | JNum int
  | JStr string
  | JArr "jvalue list"
  | JObj "(string \<times> jvalue) list"

type_synonym KeyedObject = "(string \<times> jvalue) list"

text \<open>\<open>isObject\<close> of \<^verbatim>\<open>@klasa/utils\<close>: true of plain objects only (not of arrays or null).\<close>

fun isObject :: "jvalue \<Rightarrow> bool" where
  "isObject (JObj _) = True"
| "isObject _ = False"

text \<open>Reading a nested object along a list of keys.\<close>

fun getPath :: "KeyedObject \<Rightarrow> string list \<Rightarrow> jvalue option" where
  "getPath obj [] = None"
| "getPath obj [k] = map_of obj k"
| "getPath obj (k # k' # ks) =
     (case map_of obj k of
        Some (JObj sub) \<Rightarrow> getPath sub (k' # ks)
      | _ \<Rightarrow> None)"

section \<open>Schema and update records\<close>

text \<open>
  Modelled from the spec: the schema classes are not part of the sources.  A
  \<open>SchemaEntry\<close> is a "path-addressable node with a default value"; a \<open>SchemaFolder\<close> is
  "a named set of child entries/folders", here the list of its keys with their pieces
  (\<open>default_value\<close> stands for the field \<open>default\<close>).
\<close>

record SchemaEntry =
  path :: string
  default_value :: jvalue

datatype SchemaPiece =
    PieceEntry SchemaEntry
  | PieceFolder "(string \<times> SchemaPiece) list"

type_synonym SchemaFolder = "(string \<times> SchemaPiece) list"

text \<open>
  Modelled from the spec: one element of a \<^verbatim>\<open>SettingsUpdateResults\<close> array, a change
  record \<^verbatim>\<open>{entry, previous, next}\<close> (\<open>next_value\<close> stands for the field \<open>next\<close>).
\<close>

record SettingsUpdateResult =
  entry :: SchemaEntry
  previous :: jvalue
  next_value :: jvalue

section \<open>Provider.parseUpdateInput\<close>

text \<open>
  \<^verbatim>\<open>changes: ReadonlyAnyObject | SettingsUpdateResults\<close>; the code tells the two apart
  with \<^verbatim>\<open>Array.isArray\<close>.
\<close>

datatype UpdateInput =
    PlainObject KeyedObject
  | Results "SettingsUpdateResult list"

text \<open>\<^verbatim>\<open>path.split('.')\<close>: always at least one segment, empty segments kept.\<close>

fun split_dot :: "string \<Rightarrow> string list" where
  "split_dot [] = [[]]"
| "split_dot (c # cs) =
     (if c = CHR ''.'' then [] # split_dot cs
      else (case split_dot cs of [] \<Rightarrow> [[c]] | s # ss \<Rightarrow> (c # s) # ss))"

text \<open>
  Modelled from the spec: \<^verbatim>\<open>makeObject\<close> is imported from \<^verbatim>\<open>@klasa/utils\<close> and is
  not part of the sources.  \<open>makeObject path value\<close> is the nested object that holds
  \<open>value\<close> at the dotted \<open>path\<close> and nothing else, so that merging it puts the change
  "at its schema path"; \<open>nest\<close> builds it from the segments of the path.
\<close>

fun nest :: "string list \<Rightarrow> jvalue \<Rightarrow> KeyedObject" where
  "nest [] v = []"
| "nest [k] v = [(k, v)]"
| "nest (k # k' # ks) v = [(k, JObj (nest (k' # ks) v))]"

definition makeObject :: "string \<Rightarrow> jvalue \<Rightarrow> KeyedObject" where
  "makeObject p v = nest (split_dot p) v"

text \<open>
  Modelled from the spec: \<^verbatim>\<open>mergeObjects\<close> is imported from \<^verbatim>\<open>@klasa/utils\<close> and
  is not part of the sources.  \<open>mergeObjects target source\<close> is the deep merge of
  \<open>source\<close> into \<open>target\<close> ("deep merge, not replacement of parent objects", "later
  entries ... overwriting earlier ones at the same path, while leaving sibling paths
  untouched"): key by key, where both sides hold a plain object the two are merged
  recursively, otherwise the source's value is stored under the key.
\<close>

function mergeObjects :: "KeyedObject \<Rightarrow> KeyedObject \<Rightarrow> KeyedObject" where
  "mergeObjects objTarget [] = objTarget"
| "mergeObjects objTarget ((key, v) # rest) =
     mergeObjects
       (case v of
          JObj src \<Rightarrow>
            (case map_of objTarget key of
               Some (JObj tgt) \<Rightarrow> AList.update key (JObj (mergeObjects tgt src)) objTarget
             | _ \<Rightarrow> AList.update key v objTarget)
        | _ \<Rightarrow> AList.update key v objTarget)
       rest"
  by pat_completeness auto
termination
  by (relation "measure (\<lambda>(t, s). size_list (size_prod (\<lambda>_. 0) size) s)") auto

text \<open>
  \<^verbatim>\<open>if (!Array.isArray(changes)) return changes as KeyedObject;
  const updated: KeyedObject = {};
  for (const change of changes) mergeObjects(updated, makeObject(change.entry.path, change.next));
  return updated;\<close>
\<close>

definition parseUpdateInput :: "UpdateInput \<Rightarrow> KeyedObject" where
  "parseUpdateInput changes =
     (case changes of
        PlainObject obj \<Rightarrow> obj
      | Results cs \<Rightarrow>
          foldl (\<lambda>updated change.
                   mergeObjects updated (makeObject (path (entry change)) (next_value change)))
                [] cs)"

text \<open>No path of the list is a proper prefix of another: the paths are leaves of one tree.\<close>

definition prefix_free :: "string list list \<Rightarrow> bool" where
  "prefix_free ps = (\<forall>p \<in> set ps. \<forall>q \<in> set ps. \<not> strict_prefix p q)"

section \<open>SettingsFolder\<close>

text \<open>
  Modelled from the spec: \<^verbatim>\<open>SettingsFolder.ts\<close> is not part of the sources.  A
  \<open>SettingsFolder\<close> is "a mutable, schema-shaped nested value container", "bound 1:1 to
  a Schema tree at construction": it maps each key of its schema folder to a value or to
  a sub-folder.
\<close>

datatype FolderValue =
    Leaf jvalue
  | SubFolder "(string \<times> FolderValue) list"

type_synonym FolderEntries = "(string \<times> FolderValue) list"

record SettingsFolder =
  schema :: SchemaFolder
  entries :: FolderEntries

text \<open>
  Modelled from the spec: \<^verbatim>\<open>SettingsFolder.ts\<close> is not part of the sources.
  \<open>_init(target, schema)\<close> "recursively fills every schema path with its default
  value": key by key it stores the entry's default, or a sub-folder filled from the
  sub-schema, into \<open>target\<close>.
\<close>

function SettingsFolder_init :: "FolderEntries \<Rightarrow> SchemaFolder \<Rightarrow> FolderEntries" where
  "SettingsFolder_init tgt [] = tgt"
| "SettingsFolder_init tgt ((key, piece) # rest) =
     SettingsFolder_init
       (AList.update key
          (case piece of
             PieceEntry e \<Rightarrow> Leaf (default_value e)
           | PieceFolder sub \<Rightarrow> SubFolder (SettingsFolder_init [] sub))
          tgt)
       rest"
  by pat_completeness auto
termination
  by (relation "measure (\<lambda>(t, s). size_list (size_prod (\<lambda>_. 0) size) s)") auto

text \<open>
  Modelled from the spec: \<^verbatim>\<open>SettingsFolder.ts\<close> is not part of the sources.
  \<open>_patch(data)\<close> "merges an incoming plain object into the folder by path, overwriting
  only the leaves present in \<open>data\<close>; unspecified paths retain their current values", and
  it tolerates "partial/nested objects matching only part of the schema shape": a key
  the folder does not have is skipped (the folder's shape is never a superset of the
  schema's), and so is a value that is not a plain object where the folder has a
  sub-folder.
\<close>

function SettingsFolder_patch :: "FolderEntries \<Rightarrow> KeyedObject \<Rightarrow> FolderEntries" where
  "SettingsFolder_patch folder [] = folder"
| "SettingsFolder_patch folder ((key, v) # rest) =
     SettingsFolder_patch
       (case map_of folder key of
          None \<Rightarrow> folder
        | Some (Leaf _) \<Rightarrow> AList.update key (Leaf v) folder
        | Some (SubFolder sub) \<Rightarrow>
            (case v of
               JObj d \<Rightarrow> AList.update key (SubFolder (SettingsFolder_patch sub d)) folder
             | _ \<Rightarrow> folder))
       rest"
  by pat_completeness auto
termination
  by (relation "measure (\<lambda>(f, d). size_list (size_prod (\<lambda>_. 0) size) d)") auto

text \<open>
  Modelled from the spec: \<^verbatim>\<open>SettingsFolder.ts\<close> is not part of the sources.
  \<open>toJSON()\<close> "produces a plain snapshot of the current shape", "a structural copy, not
  a shared reference into the live tree".
\<close>

fun SettingsFolder_toJSON :: "FolderEntries \<Rightarrow> KeyedObject" where
  "SettingsFolder_toJSON [] = []"
| "SettingsFolder_toJSON ((key, Leaf v) # rest) = (key, v) # SettingsFolder_toJSON rest"
| "SettingsFolder_toJSON ((key, SubFolder sub) # rest) =
     (key, JObj (SettingsFolder_toJSON sub)) # SettingsFolder_toJSON rest"

section \<open>Gateway, provider and request handler\<close>

text \<open>
  Modelled from the spec: the enumeration \<^verbatim>\<open>SettingsExistenceStatus\<close> is declared in
  \<^verbatim>\<open>SettingsFolder.ts\<close>, which is not part of the sources; the status is "one of
  \<open>Unsynchronized | NotExists | Exists\<close>", "a non-nullable enum".  The field
  \<open>existenceStatus\<close> of \<open>Settings\<close> has this type: it holds one of the three members and
  never \<^verbatim>\<open>null\<close>.
\<close>

datatype SettingsExistenceStatus = Unsynchronized | NotExists | Exists

text \<open>
  What an asynchronous call can reject with: the \<^verbatim>\<open>Error\<close> that \<open>destroy\<close> throws
  itself, or whatever the storage backend rejects with (it propagates unmodified).
\<close>

datatype error =
    ProviderUnavailable
  | BackendError string

text \<open>The rows in storage: table name, then entry id.\<close>

type_synonym storage = "string \<Rightarrow> string \<Rightarrow> KeyedObject option"

text \<open>
  \<open>Provider\<close> is an abstract class: an adapter supplies \<open>delete(table, entry)\<close>
  (\<open>provider_delete\<close> here), which resolves or rejects and may change the stored rows.
  It is the only method of the provider that \<open>Settings\<close> calls.
\<close>

record Provider =
  provider_delete :: "string \<Rightarrow> string \<Rightarrow> storage \<Rightarrow> (error + unit) \<times> storage"

text \<open>
  Modelled from the spec: \<^verbatim>\<open>RequestHandler\<close> and \<^verbatim>\<open>Gateway\<close> are not part of the
  sources.  \<open>push(id)\<close> resolves with the row of \<open>id\<close>, with \<^verbatim>\<open>null\<close> when there is
  none ("\<open>push(id) -> row | absent\<close>"), or rejects.  Of a gateway, \<open>Settings\<close> reads
  \<open>name\<close>, \<open>schema\<close> (\<open>gateway_schema\<close> here), \<open>provider\<close> (which may be \<^verbatim>\<open>null\<close>) and
  \<open>requestHandler\<close>; events emitted on its \<open>client\<close> are recorded in the trace of the
  world below.
\<close>

record RequestHandler =
  push :: "string \<Rightarrow> storage \<Rightarrow> error + KeyedObject option"

record Gateway =
  name :: string
  gateway_schema :: SchemaFolder
  provider :: "Provider option"
  requestHandler :: RequestHandler

text \<open>
  Modelled from the spec: \<^verbatim>\<open>RequestHandler\<close> is not part of the sources.  A request
  handler that serves \<open>push(id)\<close> from the rows of the gateway's table: the row of the
  id, or absent.
\<close>

definition tableRequestHandler :: "string \<Rightarrow> RequestHandler" where
  "tableRequestHandler table = \<lparr>push = (\<lambda>i st. Inr (st table i))\<rparr>"

text \<open>
  Modelled from the spec: storage adapters are not part of the sources.  A provider whose
  \<open>delete(table, id)\<close> removes the row of \<open>id\<close> from \<open>table\<close> and resolves.
\<close>

definition tableProvider :: Provider where
  "tableProvider =
     \<lparr>provider_delete = (\<lambda>table i st. (Inr (), st(table := (st table)(i := None))))\<rparr>"

text \<open>
  Modelled from the spec: storage adapters are not part of the sources.  A provider whose
  \<open>delete(table, id)\<close> rejects (the backend refuses the delete) and removes nothing.
\<close>

definition rejectingProvider :: Provider where
  "rejectingProvider =
     \<lparr>provider_delete = (\<lambda>table i st. (Inl (BackendError ''delete failed''), st))\<rparr>"

section \<open>Settings\<close>

text \<open>
  \<^verbatim>\<open>class Settings extends SettingsFolder\<close>, with the fields \<open>id\<close> (\<open>ident\<close> here),
  \<open>gateway\<close>, \<open>target\<close> (an opaque reference) and \<open>existenceStatus\<close>.
\<close>

type_synonym addr = nat

record Settings = SettingsFolder +
  ident :: string
  gateway :: Gateway
  target :: nat
  existenceStatus :: SettingsExistenceStatus

text \<open>
  What a method call does to the outside world, in order: a fetch through the request
  handler, a delete through the provider, an event emitted on \<open>gateway.client\<close> (with the
  emitting \<open>Settings\<close> as payload: its reference, and its contents as a listener finds
  them at that moment).
\<close>

datatype effect =
    Push string
  | ProviderDelete string string
  | Emit string addr Settings

text \<open>
  \<open>Settings\<close> instances are mutable objects: \<open>objects\<close> is the heap that holds them,
  \<open>next_addr\<close> the first reference not yet handed out.
\<close>

record world =
  objects :: "addr \<Rightarrow> Settings"
  next_addr :: addr
  storage :: storage
  trace :: "effect list"

text \<open>
  \<^verbatim>\<open>super(gateway.schema); this.id = id; this.gateway = gateway; this.target = target;
  this.existenceStatus = SettingsExistenceStatus.Unsynchronized;
  this._init(this, this.schema);\<close>
\<close>

definition new_Settings :: "Gateway \<Rightarrow> nat \<Rightarrow> string \<Rightarrow> world \<Rightarrow> addr \<times> world" where
  "new_Settings g t i w =
     (let this = next_addr w;
          e = \<lparr>schema = gateway_schema g, entries = [], ident = i, gateway = g, target = t,
               existenceStatus = Unsynchronized\<rparr>;
          e' = e\<lparr>entries := SettingsFolder_init (entries e) (schema e)\<rparr>
      in (this, w\<lparr>objects := (objects w)(this := e'), next_addr := Suc this\<rparr>))"

text \<open>
  \<^verbatim>\<open>const clone = new Settings(this.gateway, this.target, this.id);
  clone._patch(this.toJSON());
  return clone;\<close>
\<close>

definition clone :: "addr \<Rightarrow> world \<Rightarrow> addr \<times> world" where
  "clone this w =
     (let e = objects w this;
          (c, w1) = new_Settings (gateway e) (target e) (ident e) w;
          data = SettingsFolder_toJSON (entries (objects w1 this));
          ec = objects w1 c
      in (c, w1\<lparr>objects := (objects w1)(c := ec\<lparr>entries := SettingsFolder_patch (entries ec) data\<rparr>)\<rparr>))"

text \<open>
  \<open>sync(force)\<close>; \<open>None\<close> is the omitted argument, whose default is
  \<^verbatim>\<open>this.existenceStatus === SettingsExistenceStatus.Unsynchronized\<close>.  The early return is
  guarded by \<^verbatim>\<open>!force && this.existenceStatus !== null\<close>: the status compared with the
  \<^verbatim>\<open>null\<close> literal (\<open>None\<close> below), which no member of the enumeration equals.

  \<^verbatim>\<open>const data = await this.gateway.requestHandler.push(this.id);
  if (data) { this.existenceStatus = Exists; this._patch(data);
              this.gateway.client.emit('settingsSync', this); }
  else { this.existenceStatus = NotExists; }
  return this;\<close>
\<close>

definition sync :: "addr \<Rightarrow> bool option \<Rightarrow> world \<Rightarrow> (error + addr) \<times> world" where
  "sync this force_arg w =
     (let force = (case force_arg of
                     None \<Rightarrow> existenceStatus (objects w this) = Unsynchronized
                   | Some b \<Rightarrow> b)
      in if \<not> force \<and> Some (existenceStatus (objects w this)) \<noteq> None then (Inr this, w)
         else
           let e = objects w this;
               w1 = w\<lparr>trace := trace w @ [Push (ident e)]\<rparr>
           in (case push (requestHandler (gateway e)) (ident e) (storage w) of
                 Inl err \<Rightarrow> (Inl err, w1)
               | Inr (Some data) \<Rightarrow>
                   let e1 = e\<lparr>existenceStatus := Exists\<rparr>;
                       e2 = e1\<lparr>entries := SettingsFolder_patch (entries e1) data\<rparr>;
                       w2 = w1\<lparr>objects := (objects w1)(this := e2)\<rparr>
                   in (Inr this, w2\<lparr>trace := trace w2 @ [Emit ''settingsSync'' this e2]\<rparr>)
               | Inr None \<Rightarrow>
                   (Inr this,
                    w1\<lparr>objects := (objects w1)(this := e\<lparr>existenceStatus := NotExists\<rparr>)\<rparr>)))"

text \<open>
  \<^verbatim>\<open>await this.sync();
  if (this.existenceStatus === SettingsExistenceStatus.Exists) {
    const { provider } = this.gateway;
    if (provider === null) throw new Error('The provider was not available ...');
    await provider.delete(this.gateway.name, this.id);
    this.gateway.client.emit('settingsDelete', this);
    this._init(this, this.schema);
    this.existenceStatus = SettingsExistenceStatus.NotExists;
  }
  return this;\<close>
\<close>

definition destroy :: "addr \<Rightarrow> world \<Rightarrow> (error + addr) \<times> world" where
  "destroy this w =
     (case sync this None w of
        (Inl err, w1) \<Rightarrow> (Inl err, w1)
      | (Inr _, w1) \<Rightarrow>
          let e = objects w1 this in
          if existenceStatus e = Exists then
            (case provider (gateway e) of
               None \<Rightarrow> (Inl ProviderUnavailable, w1)
             | Some p \<Rightarrow>
                 let w2 = w1\<lparr>trace := trace w1 @ [ProviderDelete (name (gateway e)) (ident e)]\<rparr>
                 in (case provider_delete p (name (gateway e)) (ident e) (storage w2) of
                       (Inl err, st) \<Rightarrow> (Inl err, w2\<lparr>storage := st\<rparr>)
                     | (Inr _, st) \<Rightarrow>
                         let w3 = w2\<lparr>storage := st,
                                     trace := trace w2 @ [Emit ''settingsDelete'' this e]\<rparr>;
                             e1 = e\<lparr>entries := SettingsFolder_init (entries e) (schema e)\<rparr>;
                             e2 = e1\<lparr>existenceStatus := NotExists\<rparr>
                         in (Inr this, w3\<lparr>objects := (objects w3)(this := e2)\<rparr>)))
          else (Inr this, w1))"

text \<open>A caller's calls on one entity, one after the other; a rejected call is caught.\<close>

datatype call = Sync "bool option" | Destroy

fun run :: "call list \<Rightarrow> addr \<Rightarrow> world \<Rightarrow> world" where
  "run [] this w = w"
| "run (Sync force_arg # cs) this w = run cs this (snd (sync this force_arg w))"
| "run (Destroy # cs) this w = run cs this (snd (destroy this w))"

section \<open>Reading folders and schemas by path\<close>

text \<open>The value a folder holds at a path, and the default a schema gives that path.\<close>

fun folderGet :: "FolderEntries \<Rightarrow> string list \<Rightarrow> jvalue option" where
  "folderGet f [] = None"
| "folderGet f [k] = (case map_of f k of Some (Leaf v) \<Rightarrow> Some v | _ \<Rightarrow> None)"
| "folderGet f (k # k' # ks) =
     (case map_of f k of Some (SubFolder sub) \<Rightarrow> folderGet sub (k' # ks) | _ \<Rightarrow> None)"

fun schemaDefault :: "SchemaFolder \<Rightarrow> string list \<Rightarrow> jvalue option" where
  "schemaDefault s [] = None"
| "schemaDefault s [k] =
     (case map_of s k of Some (PieceEntry e) \<Rightarrow> Some (default_value e) | _ \<Rightarrow> None)"
| "schemaDefault s (k # k' # ks) =
     (case map_of s k of Some (PieceFolder sub) \<Rightarrow> schemaDefault sub (k' # ks) | _ \<Rightarrow> None)"

text \<open>The keys of a schema folder are unique, at every level (it is a \<^verbatim>\<open>Map\<close>).\<close>

fun distinct_keys :: "SchemaFolder \<Rightarrow> bool" where
  "distinct_keys [] = True"
| "distinct_keys ((k, PieceEntry e) # rest) = (k \<notin> fst ` set rest \<and> distinct_keys rest)"
| "distinct_keys ((k, PieceFolder sub) # rest) =
     (k \<notin> fst ` set rest \<and> distinct_keys sub \<and> distinct_keys rest)"

text \<open>
  The folder has the shape of the schema: the same keys in the same order, a value under
  an entry's key and a sub-folder of the right shape under a folder's key.
\<close>

fun shaped :: "SchemaFolder \<Rightarrow> FolderEntries \<Rightarrow> bool" where
  "shaped [] [] = True"
| "shaped ((k, PieceEntry e) # srest) ((k', Leaf v) # frest) = (k = k' \<and> shaped srest frest)"
| "shaped ((k, PieceFolder sub) # srest) ((k', SubFolder f) # frest) =
     (k = k' \<and> shaped sub f \<and> shaped srest frest)"
| "shaped _ _ = False"

text \<open>
  What the constructor establishes and every method keeps: the entity's schema is its
  gateway's, and its folder has that schema's shape.
\<close>

definition settings_inv :: "Settings \<Rightarrow> bool" where
  "settings_inv e =
     (schema e = gateway_schema (gateway e) \<and> distinct_keys (schema e) \<and>
      shaped (schema e) (entries e))"

section \<open>A small gateway for concrete runs\<close>

definition demo_schema :: SchemaFolder where
  "demo_schema =
     [(''prefix'', PieceEntry \<lparr>path = ''prefix'', default_value = JStr ''!''\<rparr>),
      (''mod'', PieceFolder
         [(''on'', PieceEntry \<lparr>path = ''mod.on'', default_value = JBool False\<rparr>)])]"

definition demo_gateway :: "Provider option \<Rightarrow> Gateway" where
  "demo_gateway p =
     \<lparr>name = ''guilds'', gateway_schema = demo_schema, provider = p,
      requestHandler = tableRequestHandler ''guilds''\<rparr>"

definition demo_row :: KeyedObject where
  "demo_row = [(''id'', JStr ''42''), (''prefix'', JStr ''?'')]"

definition empty_storage :: storage where
  "empty_storage = (\<lambda>table i. None)"

definition demo_storage :: storage where
  "demo_storage = empty_storage(''guilds'' := (empty_storage ''guilds'')(''42'' \<mapsto> demo_row))"

text \<open>A world with no \<open>Settings\<close> instance yet, and the same with one constructed for id 42.\<close>

definition empty_world :: "storage \<Rightarrow> world" where
  "empty_world st =
     \<lparr>objects = (\<lambda>a. \<lparr>schema = [], entries = [], ident = [], gateway = demo_gateway None,
                       target = 0, existenceStatus = Unsynchronized\<rparr>),
      next_addr = 0, storage = st, trace = []\<rparr>"

definition demo_world :: "Provider option \<Rightarrow> storage \<Rightarrow> world" where
  "demo_world p st = snd (new_Settings (demo_gateway p) 7 ''42'' (empty_world st))"

text \<open>The world after that entity's first \<open>sync()\<close> has found its row in storage.\<close>

definition demo_synced :: "Provider option \<Rightarrow> world" where
  "demo_synced p = snd (sync 0 None (demo_world p demo_storage))"

text \<open>The same world after the row has disappeared from storage.\<close>

definition demo_row_removed :: "Provider option \<Rightarrow> world" where
  "demo_row_removed p = (demo_synced p)\<lparr>storage := empty_storage\<rparr>"

definition change :: "string \<Rightarrow> jvalue \<Rightarrow> SettingsUpdateResult" where
  "change p v = \<lparr>entry = \<lparr>path = p, default_value = JNull\<rparr>, previous = JNull, next_value = v\<rparr>"

section \<open>Settings on a store of references\<close>

text \<open>
  Whether a clone shares a part of its original cannot be seen while folders are plain
  values.  For the claims about sharing, objects are laid out in a store: a \<open>Settings\<close>
  object, each of its sub-folders, and each array or plain object held under a key live
  in cells of their own and are reached through references; only primitive values
  (\<^verbatim>\<open>null\<close>, booleans, numbers and strings, which JavaScript copies on assignment) are
  held in place.  Two folders may hold the same reference: a write through one of them is
  then seen through the other.
\<close>

datatype prim = PNull | PBool bool | PNum int | PStr string

fun prim_value :: "prim \<Rightarrow> jvalue" where
  "prim_value PNull = JNull"
| "prim_value (PBool b) = JBool b"
| "prim_value (PNum n) = JNum n"
| "prim_value (PStr s) = JStr s"

fun prim_of :: "jvalue \<Rightarrow> prim option" where
  "prim_of JNull = Some PNull"
| "prim_of (JBool b) = Some (PBool b)"
| "prim_of (JNum n) = Some (PNum n)"
| "prim_of (JStr s) = Some (PStr s)"
| "prim_of (JArr xs) = None"
| "prim_of (JObj kvs) = None"

text \<open>
  Modelled from the spec: \<^verbatim>\<open>SettingsFolder.ts\<close> is not part of the sources.  What a
  folder ("a mutable, schema-shaped nested value container") holds under a key: a
  primitive value, a reference to an array or plain object (\<open>Boxed\<close>), or a reference to
  a sub-folder (\<open>Sub\<close>).
\<close>

datatype child = Inline prim | Boxed addr | Sub addr

type_synonym fmap = "(string \<times> child) list"

text \<open>
  The fields of a \<open>Settings\<close> object other than the keys of its folder: \<open>schema\<close>, \<open>id\<close>,
  \<open>gateway\<close>, \<open>target\<close> and \<open>existenceStatus\<close>.
\<close>

record SettingsFields =
  fld_schema :: SchemaFolder
  fld_ident :: string
  fld_gateway :: Gateway
  fld_target :: nat
  fld_status :: SettingsExistenceStatus

text \<open>
  The store.  A reference is a number; \<open>obj_fields\<close> holds the fields of the \<open>Settings\<close>
  objects, \<open>folders\<close> the keys of every folder (of a \<open>Settings\<close> object under its own
  reference, of a sub-folder under the sub-folder's), \<open>boxes\<close> the arrays and plain
  objects; \<open>next_free\<close> is the first reference not yet handed out.
\<close>

record heap =
  obj_fields :: "addr \<Rightarrow> SettingsFields"
  folders :: "addr \<Rightarrow> fmap"
  boxes :: "addr \<Rightarrow> jvalue"
  next_free :: addr

text \<open>
  Modelled from the spec: \<^verbatim>\<open>SettingsFolder.ts\<close> is not part of the sources.  The plain
  object that \<open>toJSON()\<close> returns and \<open>_patch(data)\<close> receives: under each key a
  primitive value, a reference to an array or plain object, or a nested plain object.
\<close>

datatype snap = SPrim prim | SBox addr | SObj "(string \<times> snap) list"

type_synonym snapshot = "(string \<times> snap) list"

text \<open>
  \<open>folder[key] = c\<close> for the folder at \<open>a\<close>; a new array or plain object with the value
  \<open>v\<close>; a new, empty folder.
\<close>

definition set_child :: "addr \<Rightarrow> string \<Rightarrow> child \<Rightarrow> heap \<Rightarrow> heap" where
  "set_child a k c h = h\<lparr>folders := (folders h)(a := AList.update k c (folders h a))\<rparr>"

definition alloc_box :: "jvalue \<Rightarrow> heap \<Rightarrow> addr \<times> heap" where
  "alloc_box v h =
     (next_free h, h\<lparr>boxes := (boxes h)(next_free h := v), next_free := Suc (next_free h)\<rparr>)"

definition alloc_folder :: "heap \<Rightarrow> addr \<times> heap" where
  "alloc_folder h =
     (next_free h, h\<lparr>folders := (folders h)(next_free h := []), next_free := Suc (next_free h)\<rparr>)"

text \<open>
  Modelled from the spec: \<^verbatim>\<open>SettingsFolder.ts\<close> is not part of the sources.
  \<open>_init(target, schema)\<close> "recursively fills every schema path with its default
  value": key by key it stores the entry's default into the folder at \<open>a\<close> (a default
  that is an array or a plain object as an object of its own), or a new sub-folder
  filled from the sub-schema.
\<close>

function init_h :: "addr \<Rightarrow> SchemaFolder \<Rightarrow> heap \<Rightarrow> heap" where
  "init_h a [] h = h"
| "init_h a ((key, PieceEntry e) # rest) h =
     (case prim_of (default_value e) of
        Some p \<Rightarrow> init_h a rest (set_child a key (Inline p) h)
      | None \<Rightarrow>
          (let (b, h1) = alloc_box (default_value e) h
           in init_h a rest (set_child a key (Boxed b) h1)))"
| "init_h a ((key, PieceFolder sub) # rest) h =
     (let (b, h1) = alloc_folder h;
          h2 = init_h b sub h1
      in init_h a rest (set_child a key (Sub b) h2))"
  by pat_completeness auto
termination
  by (relation "measure (\<lambda>(a, s, h). size_list (size_prod (\<lambda>_. 0) size) s)") auto

text \<open>
  Modelled from the spec: \<^verbatim>\<open>SettingsFolder.ts\<close> is not part of the sources.
  \<open>toJSON()\<close> "produces a plain snapshot of the current shape", and it "must be a
  structural copy, not a shared reference into the live tree": a primitive value is
  copied, an array or plain object is copied into a new object, a sub-folder gives a
  nested plain object.  The folder is "bound 1:1 to a Schema tree at construction", and
  the snapshot is taken along that schema (\<open>es\<close> are the keys of the folder); a key that
  does not hold what the schema says is left out.
\<close>

function toJSON_h :: "SchemaFolder \<Rightarrow> fmap \<Rightarrow> heap \<Rightarrow> snapshot \<times> heap" where
  "toJSON_h [] es h = ([], h)"
| "toJSON_h ((key, PieceEntry e) # rest) es h =
     (case map_of es key of
        Some (Inline p) \<Rightarrow>
          (let (r, h') = toJSON_h rest es h in ((key, SPrim p) # r, h'))
      | Some (Boxed b) \<Rightarrow>
          (let (b', h1) = alloc_box (boxes h b) h;
               (r, h') = toJSON_h rest es h1
           in ((key, SBox b') # r, h'))
      | _ \<Rightarrow> toJSON_h rest es h)"
| "toJSON_h ((key, PieceFolder sub) # rest) es h =
     (case map_of es key of
        Some (Sub a) \<Rightarrow>
          (let (d, h1) = toJSON_h sub (folders h a) h;
               (r, h') = toJSON_h rest es h1
           in ((key, SObj d) # r, h'))
      | _ \<Rightarrow> toJSON_h rest es h)"
  by pat_completeness auto
termination
  by (relation "measure (\<lambda>(s, es, h). size_list (size_prod (\<lambda>_. 0) size) s)") auto

text \<open>
  Modelled from the spec: \<^verbatim>\<open>SettingsFolder.ts\<close> is not part of the sources.
  \<open>_patch(data)\<close> "merges an incoming plain object into the folder by path, overwriting
  only the leaves present in \<open>data\<close>; unspecified paths retain their current values".  A
  leaf of \<open>data\<close> is stored as it is: a primitive value in place, an array or plain
  object by its reference.  A nested plain object is merged into the sub-folder under
  its key.  A key the folder does not have is skipped, and so is a leaf where the folder
  has a sub-folder and a nested object where it has a leaf ("must tolerate
  partial/nested objects matching only part of the schema shape").
\<close>

function patch_h :: "addr \<Rightarrow> snapshot \<Rightarrow> heap \<Rightarrow> heap" where
  "patch_h a [] h = h"
| "patch_h a ((key, v) # rest) h =
     patch_h a rest
       (case map_of (folders h a) key of
          None \<Rightarrow> h
        | Some (Sub b) \<Rightarrow> (case v of SObj d \<Rightarrow> patch_h b d h | _ \<Rightarrow> h)
        | Some _ \<Rightarrow>
            (case v of
               SPrim p \<Rightarrow> set_child a key (Inline p) h
             | SBox b \<Rightarrow> set_child a key (Boxed b) h
             | SObj d \<Rightarrow> h))"
  by pat_completeness auto
termination
  by (relation "measure (\<lambda>(a, d, h). size_list (size_prod (\<lambda>_. 0) size) d)") auto

text \<open>
  The constructor on the store:
  \<^verbatim>\<open>super(gateway.schema); this.id = id; this.gateway = gateway; this.target = target;
  this.existenceStatus = SettingsExistenceStatus.Unsynchronized;
  this._init(this, this.schema);\<close>
\<close>

definition new_Settings_h :: "Gateway \<Rightarrow> nat \<Rightarrow> string \<Rightarrow> heap \<Rightarrow> addr \<times> heap" where
  "new_Settings_h g t i h =
     (let this = next_free h;
          h1 = h\<lparr>obj_fields := (obj_fields h)(this :=
                   \<lparr>fld_schema = gateway_schema g, fld_ident = i, fld_gateway = g,
                    fld_target = t, fld_status = Unsynchronized\<rparr>),
                 folders := (folders h)(this := []),
                 next_free := Suc this\<rparr>
      in (this, init_h this (fld_schema (obj_fields h1 this)) h1))"

text \<open>
  \<open>clone()\<close> on the store:
  \<^verbatim>\<open>const clone = new Settings(this.gateway, this.target, this.id);
  clone._patch(this.toJSON());
  return clone;\<close>
\<close>

definition clone_h :: "addr \<Rightarrow> heap \<Rightarrow> addr \<times> heap" where
  "clone_h this h =
     (let f = obj_fields h this;
          (c, h1) = new_Settings_h (fld_gateway f) (fld_target f) (fld_ident f) h;
          (data, h2) = toJSON_h (fld_schema (obj_fields h1 this)) (folders h1 this) h1
      in (c, patch_h c data h2))"

section \<open>Reading an entity from the store\<close>

text \<open>
  The tree of a folder, read along its schema: each key with the primitive value, the
  reference of the array or plain object, or the reference and the tree of the
  sub-folder found under it.
\<close>

datatype lnode = LPrim prim | LBox addr | LSub addr "(string \<times> lnode) list"

type_synonym ltree = "(string \<times> lnode) list"

fun folder_tree :: "heap \<Rightarrow> SchemaFolder \<Rightarrow> fmap \<Rightarrow> ltree" where
  "folder_tree h [] es = []"
| "folder_tree h ((key, PieceEntry e) # rest) es =
     (case map_of es key of
        Some (Inline p) \<Rightarrow> [(key, LPrim p)]
      | Some (Boxed b) \<Rightarrow> [(key, LBox b)]
      | _ \<Rightarrow> []) @ folder_tree h rest es"
| "folder_tree h ((key, PieceFolder sub) # rest) es =
     (case map_of es key of
        Some (Sub a) \<Rightarrow> [(key, LSub a (folder_tree h sub (folders h a)))]
      | _ \<Rightarrow> []) @ folder_tree h rest es"

text \<open>The references of the sub-folders, and of the arrays and plain objects, of a tree.\<close>

fun sub_addrs :: "ltree \<Rightarrow> addr list" where
  "sub_addrs [] = []"
| "sub_addrs ((key, LPrim p) # rest) = sub_addrs rest"
| "sub_addrs ((key, LBox b) # rest) = sub_addrs rest"
| "sub_addrs ((key, LSub a t) # rest) = a # sub_addrs t @ sub_addrs rest"

fun box_addrs :: "ltree \<Rightarrow> addr set" where
  "box_addrs [] = {}"
| "box_addrs ((key, LPrim p) # rest) = box_addrs rest"
| "box_addrs ((key, LBox b) # rest) = insert b (box_addrs rest)"
| "box_addrs ((key, LSub a t) # rest) = box_addrs t \<union> box_addrs rest"

text \<open>
  The JSON value of a tree and of a snapshot, the arrays and plain objects read from
  \<open>bx\<close>.
\<close>

fun tree_json :: "(addr \<Rightarrow> jvalue) \<Rightarrow> ltree \<Rightarrow> KeyedObject" where
  "tree_json bx [] = []"
| "tree_json bx ((key, LPrim p) # rest) = (key, prim_value p) # tree_json bx rest"
| "tree_json bx ((key, LBox b) # rest) = (key, bx b) # tree_json bx rest"
| "tree_json bx ((key, LSub a t) # rest) = (key, JObj (tree_json bx t)) # tree_json bx rest"

fun snap_json :: "(addr \<Rightarrow> jvalue) \<Rightarrow> snapshot \<Rightarrow> KeyedObject" where
  "snap_json bx [] = []"
| "snap_json bx ((key, SPrim p) # rest) = (key, prim_value p) # snap_json bx rest"
| "snap_json bx ((key, SBox b) # rest) = (key, bx b) # snap_json bx rest"
| "snap_json bx ((key, SObj d) # rest) = (key, JObj (snap_json bx d)) # snap_json bx rest"

fun snap_boxes :: "snapshot \<Rightarrow> addr set" where
  "snap_boxes [] = {}"
| "snap_boxes ((key, SPrim p) # rest) = snap_boxes rest"
| "snap_boxes ((key, SBox b) # rest) = insert b (snap_boxes rest)"
| "snap_boxes ((key, SObj d) # rest) = snap_boxes d \<union> snap_boxes rest"

text \<open>
  The cells an entity is made of: the object itself, its sub-folders, and the arrays and
  plain objects under its keys.  A mutation of the entity is a write to these cells.
\<close>

definition owned :: "heap \<Rightarrow> addr \<Rightarrow> addr set" where
  "owned h a =
     insert a (set (sub_addrs (folder_tree h (fld_schema (obj_fields h a)) (folders h a))) \<union>
               box_addrs (folder_tree h (fld_schema (obj_fields h a)) (folders h a)))"

text \<open>
  The JSON value of an entity as it stands in the store, and the JSON value of the
  snapshot that a call of its \<open>toJSON()\<close> returns.
\<close>

definition folder_json :: "heap \<Rightarrow> addr \<Rightarrow> KeyedObject" where
  "folder_json h a = tree_json (boxes h) (folder_tree h (fld_schema (obj_fields h a)) (folders h a))"

definition toJSON_value :: "heap \<Rightarrow> addr \<Rightarrow> KeyedObject" where
  "toJSON_value h a =
     (let (d, h1) = toJSON_h (fld_schema (obj_fields h a)) (folders h a) h
      in snap_json (boxes h1) d)"

text \<open>
  The folder at \<open>es\<close> has the shape of the schema: a leaf under an entry's key and a
  sub-folder of the right shape under a folder's key.  A snapshot has the shape of the
  schema: the same keys in the same order, leaves and nested objects in the same places.
\<close>

fun shaped_h :: "heap \<Rightarrow> SchemaFolder \<Rightarrow> fmap \<Rightarrow> bool" where
  "shaped_h h [] es = True"
| "shaped_h h ((key, PieceEntry e) # rest) es =
     ((case map_of es key of
         Some (Inline p) \<Rightarrow> True
       | Some (Boxed b) \<Rightarrow> True
       | _ \<Rightarrow> False) \<and> shaped_h h rest es)"
| "shaped_h h ((key, PieceFolder sub) # rest) es =
     ((case map_of es key of
         Some (Sub a) \<Rightarrow> shaped_h h sub (folders h a)
       | _ \<Rightarrow> False) \<and> shaped_h h rest es)"

fun snap_shaped :: "SchemaFolder \<Rightarrow> snapshot \<Rightarrow> bool" where
  "snap_shaped [] [] = True"
| "snap_shaped ((k, PieceEntry e) # srest) ((k', SPrim p) # drest) =
     (k = k' \<and> snap_shaped srest drest)"
| "snap_shaped ((k, PieceEntry e) # srest) ((k', SBox b) # drest) =
     (k = k' \<and> snap_shaped srest drest)"
| "snap_shaped ((k, PieceFolder sub) # srest) ((k', SObj d) # drest) =
     (k = k' \<and> snap_shaped sub d \<and> snap_shaped srest drest)"
| "snap_shaped _ _ = False"

text \<open>
  What the constructor establishes for an entity in the store: its schema is its
  gateway's, the keys of each schema folder are distinct, its folder has the shape of
  the schema, and every cell it is made of has been handed out.
\<close>

definition heap_inv :: "heap \<Rightarrow> addr \<Rightarrow> bool" where
  "heap_inv h a =
     (fld_schema (obj_fields h a) = gateway_schema (fld_gateway (obj_fields h a)) \<and>
      distinct_keys (fld_schema (obj_fields h a)) \<and>
      shaped_h h (fld_schema (obj_fields h a)) (folders h a) \<and>
      owned h a \<subseteq> {..< next_free h})"

section \<open>A small store for concrete runs\<close>

text \<open>
  A schema with a string, a list and a sub-folder.  In \<open>demo_heap\<close> one entity (object
  0) has been constructed; its prefix has been set to \<open>?\<close> and the element \<open>x\<close> has been
  pushed onto its list (the array in cell 1); its sub-folder is cell 2.
\<close>

definition list_schema :: SchemaFolder where
  "list_schema =
     [(''prefix'', PieceEntry \<lparr>path = ''prefix'', default_value = JStr ''!''\<rparr>),
      (''tags'', PieceEntry \<lparr>path = ''tags'', default_value = JArr []\<rparr>),
      (''mod'', PieceFolder
         [(''on'', PieceEntry \<lparr>path = ''mod.on'', default_value = JBool False\<rparr>)])]"

definition list_gateway :: Gateway where
  "list_gateway =
     \<lparr>name = ''guilds'', gateway_schema = list_schema, provider = None,
      requestHandler = tableRequestHandler ''guilds''\<rparr>"

definition empty_heap :: heap where
  "empty_heap =
     \<lparr>obj_fields = (\<lambda>a. \<lparr>fld_schema = [], fld_ident = [], fld_gateway = list_gateway,
                      fld_target = 0, fld_status = Unsynchronized\<rparr>),
      folders = (\<lambda>a. []), boxes = (\<lambda>a. JNull), next_free = 0\<rparr>"

definition demo_heap :: heap where
  "demo_heap =
     (let (a, h) = new_Settings_h list_gateway 7 ''42'' empty_heap;
          h1 = set_child a ''prefix'' (Inline (PStr ''?'')) h
      in h1\<lparr>boxes := (boxes h1)(1 := JArr [JStr ''x''])\<rparr>)"

text \<open>
  The store after \<open>clone()\<close> of object 0 (the clone is object 3, its sub-folder cell 5,
  its list the array in cell 6), and after two writes through the clone: \<open>y\<close> pushed onto
  the clone's list, and the clone's \<open>mod.on\<close> set.
\<close>

definition demo_cloned :: heap where
  "demo_cloned = snd (clone_h 0 demo_heap)"

definition demo_mutated :: heap where
  "demo_mutated =
     set_child 5 ''on'' (Inline (PBool True))
       (demo_cloned\<lparr>boxes := (boxes demo_cloned)(6 := JArr [JStr ''x'', JStr ''y''])\<rparr>)"

text \<open>
  For comparison, a clone made from a snapshot that is not a structural copy: object 3
  is constructed like the clone and patched with a snapshot that holds the reference of
  the original's own array (cell 1).  In \<open>demo_sharing_write\<close> the element \<open>y\<close> has been
  pushed onto the list of that clone.
\<close>

definition demo_sharing_clone :: heap where
  "demo_sharing_clone =
     patch_h 3
       [(''prefix'', SPrim (PStr ''?'')), (''tags'', SBox 1),
        (''mod'', SObj [(''on'', SPrim (PBool False))])]
       (snd (new_Settings_h list_gateway 7 ''42'' demo_heap))"

definition demo_sharing_write :: heap where
  "demo_sharing_write =
     demo_sharing_clone\<lparr>boxes := (boxes demo_sharing_clone)(1 := JArr [JStr ''x'', JStr ''y''])\<rparr>"

section \<open>Auxiliary notions for the proofs\<close>

text \<open>The folder value \<open>_init\<close> stores for a schema piece.\<close>

definition piece_default :: "SchemaPiece \<Rightarrow> FolderValue" where
  "piece_default piece = (case piece of
             PieceEntry e \<Rightarrow> Leaf (default_value e)
           | PieceFolder sub \<Rightarrow> SubFolder (SettingsFolder_init [] sub))"

text \<open>\<^verbatim>\<open>join('.')\<close>, the inverse of \<open>split_dot\<close>.\<close>

fun join_dot :: "string list \<Rightarrow> string" where
  "join_dot [] = []"
| "join_dot [s] = s"
| "join_dot (s # t # ss) = s @ CHR ''.'' # join_dot (t # ss)"

definition obj_or_none :: "jvalue option \<Rightarrow> bool" where
  "obj_or_none r = (case r of None \<Rightarrow> True | Some x \<Rightarrow> isObject x)"

definition leaf_or_none :: "jvalue option \<Rightarrow> bool" where
  "leaf_or_none r = (case r of None \<Rightarrow> True | Some x \<Rightarrow> \<not> isObject x)"

text \<open>
  \<open>merged kv u\<close>: the object \<open>u\<close> holds, at every path of \<open>kv\<close>, the value of the last
  pair of \<open>kv\<close> with that path; whatever else it holds is a plain object on the way to
  such a path.
\<close>

definition merged :: "(string list \<times> jvalue) list \<Rightarrow> KeyedObject \<Rightarrow> bool" where
  "merged kv u =
     (\<forall>p. case map_of (rev kv) p of
            Some x \<Rightarrow> getPath u p = Some x
          | None \<Rightarrow> obj_or_none (getPath u p) \<and>
                    (getPath u p \<noteq> None \<longrightarrow> (\<exists>q \<in> fst ` set kv. strict_prefix p q)))"

definition change_kv :: "SettingsUpdateResult \<Rightarrow> string list \<times> jvalue" where
  "change_kv c = (split_dot (path (entry c)), next_value c)"

section \<open>Lemmas: SettingsFolder\<close>

lemma distinct_keys_fst: "distinct_keys s \<Longrightarrow> distinct (map fst s)"
  by (induction s rule: distinct_keys.induct) auto

lemma distinct_keys_sub:
  "distinct_keys s \<Longrightarrow> map_of s k = Some (PieceFolder sub) \<Longrightarrow> distinct_keys sub"
  by (induction s rule: distinct_keys.induct) (auto split: if_splits)

lemma init_step:
  "SettingsFolder_init tgt ((key, piece) # rest) =
   SettingsFolder_init (AList.update key (piece_default piece) tgt) rest"
  by (simp add: piece_default_def)

lemma init_map_of:
  "distinct (map fst s) \<Longrightarrow>
   map_of (SettingsFolder_init tgt s) k =
     (case map_of s k of Some piece \<Rightarrow> Some (piece_default piece) | None \<Rightarrow> map_of tgt k)"
proof (induction s arbitrary: tgt)
  case Nil
  then show ?case by simp
next
  case (Cons a s)
  obtain key piece where a: "a = (key, piece)" by (cases a)
  from Cons.prems a have nk: "key \<notin> fst ` set s" and d: "distinct (map fst s)" by auto
  from nk have none: "map_of s key = None" by (simp add: map_of_eq_None_iff)
  have "map_of (SettingsFolder_init tgt (a # s)) k =
      (case map_of s k of Some piece \<Rightarrow> Some (piece_default piece)
       | None \<Rightarrow> map_of (AList.update key (piece_default piece) tgt) k)"
    unfolding a init_step using Cons.IH[OF d] by simp
  then show ?case
    using none by (cases "k = key") (simp_all add: a init_step AList.update_conv' split: option.splits)
qed

lemma init_default:
  "distinct_keys s \<Longrightarrow> schemaDefault s p = Some d \<Longrightarrow>
   folderGet (SettingsFolder_init tgt s) p = Some d"
proof (induction s p arbitrary: tgt rule: schemaDefault.induct)
  case (1 s)
  then show ?case by simp
next
  case (2 s k)
  from "2.prems"(2) obtain e where e: "map_of s k = Some (PieceEntry e)"
    and d: "d = default_value e"
    by (auto split: option.splits SchemaPiece.splits)
  show ?case
    using e d distinct_keys_fst[OF "2.prems"(1)]
    by (simp add: init_map_of piece_default_def)
next
  case (3 s k k' ks)
  from "3.prems"(2) obtain sub where sub: "map_of s k = Some (PieceFolder sub)"
    and dflt: "schemaDefault sub (k' # ks) = Some d"
    by (auto split: option.splits SchemaPiece.splits)
  have ds: "distinct_keys sub" using distinct_keys_sub[OF "3.prems"(1) sub] .
  have "folderGet (SettingsFolder_init [] sub) (k' # ks) = Some d"
    using "3.IH"[OF sub refl ds dflt] .
  then show ?case
    using sub distinct_keys_fst[OF "3.prems"(1)]
    by (simp add: init_map_of piece_default_def)
qed

lemma shaped_entry:
  "shaped ((k, PieceEntry e) # rest) f \<Longrightarrow>
   \<exists>v frest. f = (k, Leaf v) # frest \<and> shaped rest frest"
  by (erule shaped.elims) auto

lemma shaped_folder:
  "shaped ((k, PieceFolder sub) # rest) f \<Longrightarrow>
   \<exists>fs frest. f = (k, SubFolder fs) # frest \<and> shaped sub fs \<and> shaped rest frest"
  by (erule shaped.elims) auto

lemma update_append_key:
  "k \<notin> fst ` set xs \<Longrightarrow> AList.update k v (xs @ (k, y) # ys) = xs @ (k, v) # ys"
  by (induction xs) auto

lemma map_of_append_key:
  "k \<notin> fst ` set xs \<Longrightarrow> map_of (xs @ (k, y) # ys) k = Some y"
  by (induction xs) auto

lemma shaped_keys: "shaped s f \<Longrightarrow> map fst f = map fst s"
  by (induction s f rule: shaped.induct) auto

lemma init_append:
  "fst ` set tgt \<inter> fst ` set s = {} \<Longrightarrow> distinct (map fst s) \<Longrightarrow>
   SettingsFolder_init tgt s = tgt @ map (\<lambda>(k, piece). (k, piece_default piece)) s"
proof (induction s arbitrary: tgt)
  case Nil
  then show ?case by simp
next
  case (Cons a s)
  obtain key piece where a: "a = (key, piece)" by (cases a)
  from Cons.prems a have nk: "key \<notin> fst ` set tgt" by auto
  then have upd: "AList.update key v tgt = tgt @ [(key, v)]" for v
    by (induction tgt) auto
  have "fst ` set (tgt @ [(key, piece_default piece)]) \<inter> fst ` set s = {}"
    using Cons.prems a by auto
  moreover have "distinct (map fst s)" using Cons.prems by simp
  ultimately show ?case
    using Cons.IH[of "tgt @ [(key, piece_default piece)]"]
    by (simp add: a upd piece_default_def)
qed

lemma shaped_init: "distinct_keys s \<Longrightarrow> shaped s (SettingsFolder_init [] s)"
proof (induction s rule: distinct_keys.induct)
  case 1
  then show ?case by simp
next
  case (2 k e rest)
  then have d: "distinct (map fst ((k, PieceEntry e) # rest))" 
    using distinct_keys_fst[of "(k, PieceEntry e) # rest"] by simp
  have d': "distinct (map fst rest)" using d by simp
  show ?case using 2 init_append[of "[]", OF _ d] init_append[of "[]", OF _ d']
    by (simp add: piece_default_def)
next
  case (3 k sub rest)
  then have d: "distinct (map fst ((k, PieceFolder sub) # rest))" 
    using distinct_keys_fst[of "(k, PieceFolder sub) # rest"] by simp
  have d': "distinct (map fst rest)" using d by simp
  show ?case using 3 init_append[of "[]", OF _ d] init_append[of "[]", OF _ d']
    by (simp add: piece_default_def)
qed

lemma patch_roundtrip_gen:
  "distinct_keys s2 \<Longrightarrow> shaped s2 f2 \<Longrightarrow> shaped s2 g2 \<Longrightarrow>
   fst ` set f1 \<inter> fst ` set s2 = {} \<Longrightarrow>
   SettingsFolder_patch (f1 @ g2) (SettingsFolder_toJSON f2) = f1 @ f2"
proof (induction s2 arbitrary: f1 f2 g2 rule: distinct_keys.induct)
  case 1
  then show ?case by (cases f2; cases g2) auto
next
  case (2 k e rest)
  from "2.prems"(2) obtain v frest where f2: "f2 = (k, Leaf v) # frest" and sf: "shaped rest frest"
    using shaped_entry by blast
  from "2.prems"(3) obtain y grest where g2: "g2 = (k, Leaf y) # grest" and sg: "shaped rest grest"
    using shaped_entry by blast
  have nk: "k \<notin> fst ` set f1" using "2.prems"(4) by auto
  have dr: "distinct_keys rest" and kr: "k \<notin> fst ` set rest" using "2.prems"(1) by auto
  have disj: "fst ` set (f1 @ [(k, Leaf v)]) \<inter> fst ` set rest = {}"
    using "2.prems"(4) kr by auto
  have "SettingsFolder_patch ((f1 @ [(k, Leaf v)]) @ grest) (SettingsFolder_toJSON frest)
      = (f1 @ [(k, Leaf v)]) @ frest"
    using "2.IH"[OF dr sf sg disj] .
  then show ?case
    by (simp add: f2 g2 map_of_append_key[OF nk] update_append_key[OF nk] del: map_of_append)
next
  case (3 k sub rest)
  from "3.prems"(2) obtain fs frest where f2: "f2 = (k, SubFolder fs) # frest"
    and sfs: "shaped sub fs" and sf: "shaped rest frest"
    using shaped_folder by blast
  from "3.prems"(3) obtain gs grest where g2: "g2 = (k, SubFolder gs) # grest"
    and sgs: "shaped sub gs" and sg: "shaped rest grest"
    using shaped_folder by blast
  have nk: "k \<notin> fst ` set f1" using "3.prems"(4) by auto
  have ds: "distinct_keys sub" and dr: "distinct_keys rest" and kr: "k \<notin> fst ` set rest"
    using "3.prems"(1) by auto
  have inner: "SettingsFolder_patch gs (SettingsFolder_toJSON fs) = fs"
    using "3.IH"(1)[OF ds sfs sgs, of "[]"] by simp
  have disj: "fst ` set (f1 @ [(k, SubFolder fs)]) \<inter> fst ` set rest = {}"
    using "3.prems"(4) kr by auto
  have "SettingsFolder_patch ((f1 @ [(k, SubFolder fs)]) @ grest) (SettingsFolder_toJSON frest)
      = (f1 @ [(k, SubFolder fs)]) @ frest"
    using "3.IH"(2)[OF dr sf sg disj] .
  then show ?case
    by (simp add: f2 g2 map_of_append_key[OF nk] update_append_key[OF nk] inner del: map_of_append)
qed

lemma patch_roundtrip:
  "distinct_keys s \<Longrightarrow> shaped s f \<Longrightarrow>
   SettingsFolder_patch (SettingsFolder_init [] s) (SettingsFolder_toJSON f) = f"
  using patch_roundtrip_gen[of s f "SettingsFolder_init [] s" "[]"] shaped_init[of s]
  by simp

section \<open>Lemmas: merging along paths\<close>

lemma split_dot_nonempty: "split_dot s \<noteq> []"
  by (induction s) (auto split: list.splits)

lemma join_split_dot: "join_dot (split_dot s) = s"
proof (induction s)
  case Nil
  then show ?case by simp
next
  case (Cons c s)
  then show ?case
    using split_dot_nonempty[of s]
    by (cases "split_dot s"; cases "tl (split_dot s)") (auto split: list.splits)
qed

lemma split_dot_inj: "split_dot s = split_dot t \<Longrightarrow> s = t"
  by (metis join_split_dot)

lemma path_cases:
  obtains "p = []" | k where "p = [k]" | k k' ks where "p = k # k' # ks"
  by (cases p; cases "tl p") auto

lemma getPath_nest:
  "q \<noteq> [] \<Longrightarrow> \<not> isObject v \<Longrightarrow>
   getPath (nest q v) p =
     (if p = q then Some v
      else if p \<noteq> [] \<and> strict_prefix p q then Some (JObj (nest (drop (length p) q) v))
      else None)"
proof (induction q v arbitrary: p rule: nest.induct)
  case (1 v)
  then show ?case by simp
next
  case (2 k v)
  then show ?case
    by (cases p rule: path_cases) (auto split: jvalue.splits)
next
  case (3 k k' ks v)
  show ?case
  proof (cases p rule: path_cases)
    case 1
    then show ?thesis by simp
  next
    case (2 j)
    then show ?thesis by auto
  next
    case (3 j j' js)
    then have p: "p = j # j' # js" by simp
    show ?thesis
      using "3.IH"[of "j' # js"] "3.prems" by (auto simp add: p)
  qed
qed

lemma getPath_merge_nest:
  assumes "q \<noteq> []" and "\<not> isObject v"
    and "\<forall>p. p \<noteq> [] \<and> strict_prefix p q \<longrightarrow> obj_or_none (getPath t p)"
    and "leaf_or_none (getPath t q)"
  shows "getPath (mergeObjects t (nest q v)) p =
     (if p = q then Some v
      else if p \<noteq> [] \<and> strict_prefix p q
        then getPath (mergeObjects t (nest q v)) p
      else getPath t p)
     \<and> (p \<noteq> [] \<and> strict_prefix p q \<longrightarrow>
          (\<exists>ob. getPath (mergeObjects t (nest q v)) p = Some (JObj ob)))"
  using assms
proof (induction q v arbitrary: p t rule: nest.induct)
  case (1 v)
  then show ?case by simp
next
  case (2 k v)
  have m: "mergeObjects t [(k, v)] = AList.update k v t"
    using "2.prems"(2) by (cases v) simp_all
  have l: "case map_of t k of None \<Rightarrow> True | Some x \<Rightarrow> \<not> isObject x"
    using "2.prems"(4) by (simp add: leaf_or_none_def)
  show ?case
  proof (cases p rule: path_cases)
    case 1
    then show ?thesis by simp
  next
    case (2 j)
    then show ?thesis by (auto simp add: m AList.update_conv' simp del: mergeObjects.simps)
  next
    case (3 j j' js)
    then show ?thesis
      using l "2.prems"(2)
      by (auto simp add: m AList.update_conv' simp del: mergeObjects.simps split: option.splits jvalue.splits)
  qed
next
  case (3 k k' ks v)
  let ?q' = "k' # ks"
  have ok: "obj_or_none (map_of t k)"
    using "3.prems"(3)[rule_format, of "[k]"] by simp
  show ?case
  proof (cases "map_of t k")
    case None
    have m: "mergeObjects t [(k, JObj (nest ?q' v))] = AList.update k (JObj (nest ?q' v)) t"
      using None by simp
    show ?thesis
    proof (cases p rule: path_cases)
      case 1
      then show ?thesis by simp
    next
      case (2 j)
      then show ?thesis by (auto simp add: m AList.update_conv' simp del: mergeObjects.simps)
    next
      case (3 j j' js)
      then have p: "p = j # j' # js" by simp
      show ?thesis
        using None "3.prems"(2) getPath_nest[of ?q' v "j' # js"]
        by (auto simp add: p m AList.update_conv' simp del: mergeObjects.simps)
    qed
  next
    case (Some x)
    then obtain tgt where x: "x = JObj tgt"
      using ok by (cases x) (simp_all add: obj_or_none_def)
    have m: "mergeObjects t [(k, JObj (nest ?q' v))] =
        AList.update k (JObj (mergeObjects tgt (nest ?q' v))) t"
      using Some x by simp
    have h3: "\<forall>p. p \<noteq> [] \<and> strict_prefix p ?q' \<longrightarrow> obj_or_none (getPath tgt p)"
    proof (intro allI impI)
      fix p' assume a: "p' \<noteq> [] \<and> strict_prefix p' ?q'"
      then obtain a' r' where p': "p' = a' # r'" by (cases p') auto
      have "obj_or_none (getPath t (k # p'))"
        using "3.prems"(3)[rule_format, of "k # p'"] a by simp
      then show "obj_or_none (getPath tgt p')"
        using Some x by (simp add: p')
    qed
    have h4: "leaf_or_none (getPath tgt ?q')"
      using "3.prems"(4) Some x by simp
    note IH = "3.IH"[OF _ "3.prems"(2) h3 h4, simplified]
    show ?thesis
    proof (cases p rule: path_cases)
      case 1
      then show ?thesis by simp
    next
      case (2 j)
      then show ?thesis using Some x by (auto simp add: m AList.update_conv' simp del: mergeObjects.simps)
    next
      case (3 j j' js)
      then have p: "p = j # j' # js" by simp
      show ?thesis
        using IH[of "j' # js"] Some x
        by (auto simp add: p m AList.update_conv' simp del: mergeObjects.simps)
    qed
  qed
qed


lemma getPath_empty: "getPath [] p = None"
  by (cases p rule: path_cases) auto

lemma map_of_rev_dom: "map_of (rev kv) p = Some x \<Longrightarrow> (p, x) \<in> set kv"
  by (drule map_of_SomeD) simp

lemma map_of_rev_None: "map_of (rev kv) p = None \<longleftrightarrow> p \<notin> fst ` set kv"
  by (simp add: map_of_eq_None_iff)

lemma merged_step:
  assumes inv: "merged kv u"
    and pf: "prefix_free (map fst (kv @ [(q, v)]))"
    and leafs: "\<forall>(p, x) \<in> set (kv @ [(q, v)]). \<not> isObject x"
    and q: "q \<noteq> []"
  shows "merged (kv @ [(q, v)]) (mergeObjects u (nest q v))"
proof -
  have v: "\<not> isObject v" using leafs by simp
  have nopre: "\<not> strict_prefix a b" if "a \<in> insert q (fst ` set kv)" "b \<in> insert q (fst ` set kv)" for a b
    using pf that unfolding prefix_free_def by auto
  have h3: "\<forall>p. p \<noteq> [] \<and> strict_prefix p q \<longrightarrow> obj_or_none (getPath u p)"
  proof (intro allI impI)
    fix p assume a: "p \<noteq> [] \<and> strict_prefix p q"
    then have "p \<notin> fst ` set kv" using nopre[of p q] by auto
    then have "map_of (rev kv) p = None" by (simp add: map_of_rev_None)
    then show "obj_or_none (getPath u p)"
      using inv[unfolded merged_def, rule_format, of p] by simp
  qed
  have h4: "leaf_or_none (getPath u q)"
  proof (cases "map_of (rev kv) q")
    case None
    then have "getPath u q \<noteq> None \<longrightarrow> (\<exists>q' \<in> fst ` set kv. strict_prefix q q')"
      using inv[unfolded merged_def, rule_format, of q] by simp
    moreover have "\<not> (\<exists>q' \<in> fst ` set kv. strict_prefix q q')"
      using nopre[of q] by auto
    ultimately show ?thesis by (auto simp add: leaf_or_none_def)
  next
    case (Some x)
    then have "getPath u q = Some x"
      using inv[unfolded merged_def, rule_format, of q] by simp
    moreover have "\<not> isObject x"
      using map_of_rev_dom[OF Some] leafs by auto
    ultimately show ?thesis by (simp add: leaf_or_none_def)
  qed
  note M = getPath_merge_nest[OF q v h3 h4]
  show ?thesis
    unfolding merged_def
  proof
    fix p
    let ?u' = "mergeObjects u (nest q v)"
    show "case map_of (rev (kv @ [(q, v)])) p of
            Some x \<Rightarrow> getPath ?u' p = Some x
          | None \<Rightarrow> obj_or_none (getPath ?u' p) \<and>
              (getPath ?u' p \<noteq> None \<longrightarrow> (\<exists>q' \<in> fst ` set (kv @ [(q, v)]). strict_prefix p q'))"
    proof (cases "p = q")
      case True
      then show ?thesis using M[of p] by simp
    next
      case neq: False
      show ?thesis
      proof (cases "map_of (rev kv) p")
        case (Some x)
        then have "p \<in> fst ` set kv" using map_of_rev_dom[OF Some] by force
        then have "\<not> strict_prefix p q" using nopre[of p q] by auto
        moreover have "getPath u p = Some x"
          using inv[unfolded merged_def, rule_format, of p] Some by simp
        ultimately show ?thesis using M[of p] neq Some by simp
      next
        case None
        have old: "obj_or_none (getPath u p) \<and>
            (getPath u p \<noteq> None \<longrightarrow> (\<exists>q' \<in> fst ` set kv. strict_prefix p q'))"
          using inv[unfolded merged_def, rule_format, of p] None by simp
        show ?thesis
        proof (cases "p \<noteq> [] \<and> strict_prefix p q")
          case True
          then obtain ob where "getPath ?u' p = Some (JObj ob)" using M[of p] by auto
          then show ?thesis using neq None True by (auto simp add: obj_or_none_def)
        next
          case False
          then have "getPath ?u' p = getPath u p" using M[of p] neq by auto
          then show ?thesis using neq None old by auto
        qed
      qed
    qed
  qed
qed

lemma parse_snoc:
  "parseUpdateInput (Results (cs @ [c])) =
   mergeObjects (parseUpdateInput (Results cs)) (nest (split_dot (path (entry c))) (next_value c))"
  by (simp add: parseUpdateInput_def makeObject_def)

lemma prefix_free_butlast: "prefix_free (xs @ [x]) \<Longrightarrow> prefix_free xs"
  by (auto simp add: prefix_free_def)

lemma merged_parse:
  "prefix_free (map (\<lambda>c. split_dot (path (entry c))) cs) \<Longrightarrow>
   \<forall>c \<in> set cs. \<not> isObject (next_value c) \<Longrightarrow>
   merged (map change_kv cs) (parseUpdateInput (Results cs))"
proof (induction cs rule: rev_induct)
  case Nil
  then show ?case
    by (simp add: merged_def parseUpdateInput_def obj_or_none_def getPath_empty)
next
  case (snoc c cs)
  have pf: "prefix_free (map (\<lambda>c. split_dot (path (entry c))) cs)"
    using snoc.prems(1) prefix_free_butlast by simp
  have inv: "merged (map change_kv cs) (parseUpdateInput (Results cs))"
    using snoc.IH[OF pf] snoc.prems(2) by simp
  have fsts: "map fst (map change_kv cs @ [change_kv c]) =
      map (\<lambda>c. split_dot (path (entry c))) (cs @ [c])"
    by (simp add: change_kv_def comp_def)
  have "merged (map change_kv cs @ [(split_dot (path (entry c)), next_value c)])
      (mergeObjects (parseUpdateInput (Results cs))
         (nest (split_dot (path (entry c))) (next_value c)))"
  proof (rule merged_step[OF inv])
    show "prefix_free (map fst (map change_kv cs @ [(split_dot (path (entry c)), next_value c)]))"
      using snoc.prems(1) by (simp add: change_kv_def comp_def)
    show "\<forall>(p, x)\<in>set (map change_kv cs @ [(split_dot (path (entry c)), next_value c)]).
       \<not> isObject x"
      using snoc.prems(2) by (auto simp add: change_kv_def)
    show "split_dot (path (entry c)) \<noteq> []" by (rule split_dot_nonempty)
  qed
  moreover have "change_kv c = (split_dot (path (entry c)), next_value c)"
    by (simp add: change_kv_def)
  ultimately show ?case
    by (simp add: parse_snoc)
qed

lemma last_change:
  "\<exists>c \<in> set cs. path (entry c) = P \<Longrightarrow>
   map_of (rev (map change_kv cs)) (split_dot P) =
     Some (next_value (last [c' \<leftarrow> cs. path (entry c') = P]))"
proof (induction cs rule: rev_induct)
  case Nil
  then show ?case by simp
next
  case (snoc x cs)
  show ?case
  proof (cases "path (entry x) = P")
    case True
    then show ?thesis by (simp add: change_kv_def)
  next
    case False
    then have "split_dot (path (entry x)) \<noteq> split_dot P" using split_dot_inj by blast
    moreover have "\<exists>c \<in> set cs. path (entry c) = P" using snoc.prems False by auto
    ultimately show ?thesis using snoc.IH False by (simp add: change_kv_def)
  qed
qed

section \<open>Lemmas: the methods of Settings\<close>

lemma sync_other: "b \<noteq> a \<Longrightarrow> objects (snd (sync a f w)) b = objects w b"
  by (simp add: sync_def Let_def split: sum.splits option.splits)

lemma destroy_other: "b \<noteq> a \<Longrightarrow> objects (snd (destroy a w)) b = objects w b"
  using sync_other[of b a None w]
  by (auto simp add: destroy_def Let_def split: sum.splits option.splits prod.splits)

lemma run_other: "b \<noteq> a \<Longrightarrow> objects (run cs a w) b = objects w b"
proof (induction cs a w rule: run.induct)
  case (1 this w)
  then show ?case by simp
next
  case (2 force_arg cs this w)
  then show ?case by (simp add: sync_other)
next
  case (3 cs this w)
  then show ?case by (simp add: destroy_other)
qed

lemma sync_status:
  "existenceStatus (objects (snd (sync this f w)) this)
     \<in> {existenceStatus (objects w this), Exists, NotExists}"
  by (simp add: sync_def Let_def split: sum.splits option.splits)

lemma destroy_status:
  "existenceStatus (objects (snd (destroy this w)) this)
     \<in> {existenceStatus (objects (snd (sync this None w)) this), NotExists}"
  by (auto simp add: destroy_def Let_def split: sum.splits option.splits prod.splits)

lemma run_status:
  "existenceStatus (objects w this) \<noteq> Unsynchronized \<Longrightarrow>
   existenceStatus (objects (run cs this w) this) \<noteq> Unsynchronized"
proof (induction cs this w rule: run.induct)
  case (1 this w)
  then show ?case by simp
next
  case (2 force_arg cs this w)
  have "existenceStatus (objects (snd (sync this force_arg w)) this) \<noteq> Unsynchronized"
    using sync_status[of this force_arg w] "2.prems" by auto
  then show ?case using "2.IH" by simp
next
  case (3 cs this w)
  have "existenceStatus (objects (snd (sync this None w)) this) \<noteq> Unsynchronized"
    using sync_status[of this None w] "3.prems" by auto
  then have "existenceStatus (objects (snd (destroy this w)) this) \<noteq> Unsynchronized"
    using destroy_status[of this w] by auto
  then show ?case using "3.IH" by simp
qed

section \<open>Lemmas: the concrete gateway\<close>

lemma demo_schema_distinct: "distinct_keys demo_schema"
  by (simp add: demo_schema_def)

lemma demo_world_simps:
  "objects (demo_world p st) 0 =
     \<lparr>schema = demo_schema,
      entries = [(''prefix'', Leaf (JStr ''!'')), (''mod'', SubFolder [(''on'', Leaf (JBool False))])],
      ident = ''42'', gateway = demo_gateway p, target = 7,
      existenceStatus = Unsynchronized\<rparr>"
  "storage (demo_world p st) = st"
  "trace (demo_world p st) = []"
  "next_addr (demo_world p st) = 1"
  by (simp_all add: demo_world_def new_Settings_def empty_world_def demo_gateway_def
      demo_schema_def Let_def)

lemma demo_push:
  "push (requestHandler (demo_gateway p)) ''42'' demo_storage = Inr (Some demo_row)"
  "push (requestHandler (demo_gateway p)) ''42'' empty_storage = Inr None"
  by (simp_all add: demo_gateway_def tableRequestHandler_def demo_storage_def empty_storage_def)

lemma demo_gateway_simps:
  "provider (demo_gateway p) = p"
  "name (demo_gateway p) = ''guilds''"
  "gateway_schema (demo_gateway p) = demo_schema"
  by (simp_all add: demo_gateway_def)

lemma demo_sync_found:
  "sync 0 None (demo_world p demo_storage) =
     (Inr 0,
      (demo_world p demo_storage)
        \<lparr>objects := (objects (demo_world p demo_storage))(0 :=
            \<lparr>schema = demo_schema,
             entries = [(''prefix'', Leaf (JStr ''?'')),
                        (''mod'', SubFolder [(''on'', Leaf (JBool False))])],
             ident = ''42'', gateway = demo_gateway p, target = 7,
             existenceStatus = Exists\<rparr>),
         trace := [Push ''42'',
           Emit ''settingsSync'' 0
            \<lparr>schema = demo_schema,
             entries = [(''prefix'', Leaf (JStr ''?'')),
                        (''mod'', SubFolder [(''on'', Leaf (JBool False))])],
             ident = ''42'', gateway = demo_gateway p, target = 7,
             existenceStatus = Exists\<rparr>]\<rparr>)"
  by (simp add: sync_def Let_def demo_world_simps demo_push demo_row_def)

lemma demo_sync_absent:
  "sync 0 None (demo_world p empty_storage) =
     (Inr 0,
      (demo_world p empty_storage)
        \<lparr>objects := (objects (demo_world p empty_storage))(0 :=
            \<lparr>schema = demo_schema,
             entries = [(''prefix'', Leaf (JStr ''!'')),
                        (''mod'', SubFolder [(''on'', Leaf (JBool False))])],
             ident = ''42'', gateway = demo_gateway p, target = 7,
             existenceStatus = NotExists\<rparr>),
         trace := [Push ''42'']\<rparr>)"
  by (simp add: sync_def Let_def demo_world_simps demo_push)

lemma demo_synced_simps:
  "objects (demo_synced p) 0 =
     \<lparr>schema = demo_schema,
      entries = [(''prefix'', Leaf (JStr ''?'')), (''mod'', SubFolder [(''on'', Leaf (JBool False))])],
      ident = ''42'', gateway = demo_gateway p, target = 7,
      existenceStatus = Exists\<rparr>"
  "storage (demo_synced p) = demo_storage"
  "trace (demo_synced p) =
     [Push ''42'',
      Emit ''settingsSync'' 0
        \<lparr>schema = demo_schema,
         entries = [(''prefix'', Leaf (JStr ''?'')),
                    (''mod'', SubFolder [(''on'', Leaf (JBool False))])],
         ident = ''42'', gateway = demo_gateway p, target = 7,
         existenceStatus = Exists\<rparr>]"
  "next_addr (demo_synced p) = 1"
  by (simp_all add: demo_synced_def demo_sync_found demo_world_simps)

lemma empty_storage_apply: "empty_storage table i = None"
  by (simp add: empty_storage_def)

text \<open>The default of \<open>force\<close>: true exactly when the status is \<open>Unsynchronized\<close>.\<close>

lemma sync_default_force:
  "sync this None w = sync this (Some (existenceStatus (objects w this) = Unsynchronized)) w"
  by (simp add: sync_def)

text \<open>With \<open>force = false\<close> the guard of the early return holds in every state.\<close>

lemma sync_not_forced: "sync this (Some False) w = (Inr this, w)"
  by (simp add: sync_def)


section \<open>Claims about Settings.sync\<close>

text \<open>
  Claim C1.  \<open>sync(force = false)\<close> is meant to return at once only when the entity
  has already been resolved, and to call \<open>requestHandler.push(id)\<close> while the status is
  still \<open>Unsynchronized\<close>.  The guard compares the status with \<^verbatim>\<open>null\<close>, which no
  status equals, so \<open>sync(false)\<close> returns at once in every state.  The freshly
  constructed entity of the concrete gateway has status \<open>Unsynchronized\<close> and a row in
  storage; \<open>sync(false)\<close> returns the entity and leaves the world as it was: nothing is
  pushed to the request handler and the status is still \<open>Unsynchronized\<close>.
\<close>

theorem sync_false_returns_early_when_unsynchronized:
  "existenceStatus (objects (demo_world None demo_storage) 0) = Unsynchronized \<and>
   storage (demo_world None demo_storage) ''guilds'' ''42'' = Some demo_row \<and>
   sync 0 (Some False) (demo_world None demo_storage) = (Inr 0, demo_world None demo_storage) \<and>
   trace (snd (sync 0 (Some False) (demo_world None demo_storage))) = [] \<and>
   existenceStatus (objects (snd (sync 0 (Some False) (demo_world None demo_storage))) 0)
     = Unsynchronized"
  by (simp add: sync_def demo_world_simps demo_storage_def)

text \<open>
  Claim C2, as amended.  Whenever \<open>sync\<close> performs a fetch (\<open>sync(true)\<close>, or \<open>sync()\<close>
  on an unsynchronized entity) and \<open>push(id)\<close> resolves with a row, the status becomes
  \<open>Exists\<close>, the row is merged into the folder by \<open>_patch\<close>, and \<open>settingsSync\<close> is
  emitted with the entity as payload; when \<open>push(id)\<close> resolves with no row, the status
  becomes \<open>NotExists\<close> and the folder's values stay as they were.  So for a freshly
  constructed entity whose id has no row, after \<open>sync()\<close> the status is \<open>NotExists\<close>
  and every field equals its schema default.
\<close>

theorem sync_fetch_result:
  "((force_arg = Some True \<or>
      (force_arg = None \<and> existenceStatus (objects w this) = Unsynchronized)) \<and>
     e = objects w this \<and>
     push (requestHandler (gateway e)) (ident e) (storage w) = Inr (Some data) \<longrightarrow>
     sync this force_arg w =
       (Inr this,
        w\<lparr>objects := (objects w)(this :=
              e\<lparr>existenceStatus := Exists, entries := SettingsFolder_patch (entries e) data\<rparr>),
          trace := trace w @
            [Push (ident e),
             Emit ''settingsSync'' this
               (e\<lparr>existenceStatus := Exists,
                  entries := SettingsFolder_patch (entries e) data\<rparr>)]\<rparr>)) \<and>
   ((force_arg = Some True \<or>
      (force_arg = None \<and> existenceStatus (objects w this) = Unsynchronized)) \<and>
     e = objects w this \<and>
     push (requestHandler (gateway e)) (ident e) (storage w) = Inr None \<longrightarrow>
     sync this force_arg w =
       (Inr this,
        w\<lparr>objects := (objects w)(this := e\<lparr>existenceStatus := NotExists\<rparr>),
          trace := trace w @ [Push (ident e)]\<rparr>)) \<and>
   (distinct_keys (gateway_schema g) \<and>
     push (requestHandler g) i (storage w0) = Inr None \<longrightarrow>
     (let (a, w1) = new_Settings g t i w0;
          w2 = snd (sync a None w1)
      in existenceStatus (objects w2 a) = NotExists \<and>
         (\<forall>p d. schemaDefault (gateway_schema g) p = Some d \<longrightarrow>
                folderGet (entries (objects w2 a)) p = Some d)))"
proof (intro conjI impI)
  assume "(force_arg = Some True \<or>
      (force_arg = None \<and> existenceStatus (objects w this) = Unsynchronized)) \<and>
     e = objects w this \<and>
     push (requestHandler (gateway e)) (ident e) (storage w) = Inr (Some data)"
  then show "sync this force_arg w =
       (Inr this,
        w\<lparr>objects := (objects w)(this :=
              e\<lparr>existenceStatus := Exists, entries := SettingsFolder_patch (entries e) data\<rparr>),
          trace := trace w @
            [Push (ident e),
             Emit ''settingsSync'' this
               (e\<lparr>existenceStatus := Exists,
                  entries := SettingsFolder_patch (entries e) data\<rparr>)]\<rparr>)"
    by (auto simp add: sync_def Let_def)
next
  assume "(force_arg = Some True \<or>
      (force_arg = None \<and> existenceStatus (objects w this) = Unsynchronized)) \<and>
     e = objects w this \<and>
     push (requestHandler (gateway e)) (ident e) (storage w) = Inr None"
  then show "sync this force_arg w =
       (Inr this,
        w\<lparr>objects := (objects w)(this := e\<lparr>existenceStatus := NotExists\<rparr>),
          trace := trace w @ [Push (ident e)]\<rparr>)"
    by (auto simp add: sync_def Let_def)
next
  assume h: "distinct_keys (gateway_schema g) \<and>
     push (requestHandler g) i (storage w0) = Inr None"
  have "schemaDefault (gateway_schema g) p = Some d \<Longrightarrow>
        folderGet (SettingsFolder_init [] (gateway_schema g)) p = Some d" for p d
    using init_default h by blast
  then show "(let (a, w1) = new_Settings g t i w0;
          w2 = snd (sync a None w1)
      in existenceStatus (objects w2 a) = NotExists \<and>
         (\<forall>p d. schemaDefault (gateway_schema g) p = Some d \<longrightarrow>
                folderGet (entries (objects w2 a)) p = Some d))"
    using h by (simp add: new_Settings_def sync_def Let_def)
qed


text \<open>
  The three parts at the concrete gateway: a fetch that finds the row of id 42, a forced
  fetch that finds none, and a fresh entity with no row.
\<close>

theorem sync_fetch_result_witness:
  "sync 0 None (demo_world None demo_storage) =
     (Inr 0,
      (demo_world None demo_storage)
        \<lparr>objects := (objects (demo_world None demo_storage))(0 :=
            (objects (demo_world None demo_storage) 0)
              \<lparr>existenceStatus := Exists,
               entries := [(''prefix'', Leaf (JStr ''?'')),
                           (''mod'', SubFolder [(''on'', Leaf (JBool False))])]\<rparr>),
         trace := [Push ''42'',
           Emit ''settingsSync'' 0
             ((objects (demo_world None demo_storage) 0)
              \<lparr>existenceStatus := Exists,
               entries := [(''prefix'', Leaf (JStr ''?'')),
                           (''mod'', SubFolder [(''on'', Leaf (JBool False))])]\<rparr>)]\<rparr>) \<and>
   sync 0 (Some True) (demo_world None empty_storage) =
     (Inr 0,
      (demo_world None empty_storage)
        \<lparr>objects := (objects (demo_world None empty_storage))(0 :=
            (objects (demo_world None empty_storage) 0)\<lparr>existenceStatus := NotExists\<rparr>),
         trace := [Push ''42'']\<rparr>) \<and>
   existenceStatus (objects (snd (sync 0 None (demo_world None empty_storage))) 0) = NotExists \<and>
   folderGet (entries (objects (snd (sync 0 None (demo_world None empty_storage))) 0))
     [''mod'', ''on''] = Some (JBool False)"
proof -
  let ?W = "demo_world None demo_storage" and ?V = "demo_world None empty_storage"
  note T = sync_fetch_result[where force_arg = None and w = ?W and this = 0
      and e = "objects ?W 0" and data = demo_row and g = "demo_gateway None" and i = "''42''"
      and ?w0.0 = "empty_world empty_storage" and t = 7]
    and U = sync_fetch_result[where force_arg = "Some True" and w = ?V and this = 0
      and e = "objects ?V 0" and data = demo_row and g = "demo_gateway None" and i = "''42''"
      and ?w0.0 = "empty_world empty_storage" and t = 7]
  have a: "sync 0 None ?W =
     (Inr 0,
      ?W\<lparr>objects := (objects ?W)(0 :=
            (objects ?W 0)
              \<lparr>existenceStatus := Exists,
               entries := [(''prefix'', Leaf (JStr ''?'')),
                           (''mod'', SubFolder [(''on'', Leaf (JBool False))])]\<rparr>),
         trace := [Push ''42'',
           Emit ''settingsSync'' 0
             ((objects ?W 0)
              \<lparr>existenceStatus := Exists,
               entries := [(''prefix'', Leaf (JStr ''?'')),
                           (''mod'', SubFolder [(''on'', Leaf (JBool False))])]\<rparr>)]\<rparr>)"
    using T by (simp add: demo_world_simps demo_push demo_row_def)
  have b: "sync 0 (Some True) ?V =
     (Inr 0,
      ?V\<lparr>objects := (objects ?V)(0 := (objects ?V 0)\<lparr>existenceStatus := NotExists\<rparr>),
         trace := [Push ''42'']\<rparr>)"
    using U by (simp add: demo_world_simps demo_push)
  have ns: "new_Settings (demo_gateway None) 7 ''42'' (empty_world empty_storage) = (0, ?V)"
    by (simp add: demo_world_def new_Settings_def empty_world_def Let_def)
  have hyp: "distinct_keys (gateway_schema (demo_gateway None)) \<and>
      push (requestHandler (demo_gateway None)) ''42'' (storage (empty_world empty_storage))
        = Inr None"
    by (simp add: demo_gateway_simps demo_schema_distinct demo_push empty_world_def)
  have "existenceStatus (objects (snd (sync 0 None ?V)) 0) = NotExists \<and>
     (\<forall>p d. schemaDefault demo_schema p = Some d \<longrightarrow>
        folderGet (entries (objects (snd (sync 0 None ?V)) 0)) p = Some d)"
    using T[THEN conjunct2, THEN conjunct2] hyp by (simp add: ns demo_gateway_simps Let_def)
  moreover have "schemaDefault demo_schema [''mod'', ''on''] = Some (JBool False)"
    by (simp add: demo_schema_def)
  ultimately have c: "existenceStatus (objects (snd (sync 0 None ?V)) 0) = NotExists \<and>
     folderGet (entries (objects (snd (sync 0 None ?V)) 0)) [''mod'', ''on''] = Some (JBool False)"
    by blast
  show ?thesis using a b c by blast
qed


text \<open>
  Claim C2 as stated fails for an entity that is not fresh.  The entity of the concrete
  gateway has synchronized with its row (prefix \<open>?\<close>); the row then disappears from
  storage and \<open>sync(true)\<close> fetches again: no row is returned, the status becomes
  \<open>NotExists\<close>, and the prefix is still \<open>?\<close>, not its schema default \<open>!\<close>.
\<close>

theorem sync_absent_row_keeps_values:
  "storage (demo_row_removed None) ''guilds'' ''42'' = None \<and>
   trace (snd (sync 0 (Some True) (demo_row_removed None))) =
     trace (demo_row_removed None) @ [Push ''42''] \<and>
   existenceStatus (objects (snd (sync 0 (Some True) (demo_row_removed None))) 0) = NotExists \<and>
   schemaDefault (schema (objects (snd (sync 0 (Some True) (demo_row_removed None))) 0))
     [''prefix''] = Some (JStr ''!'') \<and>
   folderGet (entries (objects (snd (sync 0 (Some True) (demo_row_removed None))) 0))
     [''prefix''] = Some (JStr ''?'')"
  by (simp add: sync_def Let_def demo_row_removed_def demo_synced_simps demo_push
      demo_schema_def empty_storage_apply)

section \<open>Lemmas: the shape of a folder is kept\<close>

lemma shaped_update_leaf:
  "shaped s f \<Longrightarrow> map_of f k = Some (Leaf x) \<Longrightarrow> shaped s (AList.update k (Leaf v) f)"
  by (induction s f rule: shaped.induct) (auto split: if_splits)

lemma shaped_update_sub:
  "shaped s f \<Longrightarrow> map_of f k = Some (SubFolder sub) \<Longrightarrow>
   (\<And>s'. shaped s' sub \<Longrightarrow> shaped s' sub') \<Longrightarrow>
   shaped s (AList.update k (SubFolder sub') f)"
  by (induction s f rule: shaped.induct) (auto split: if_splits)

lemma shaped_patch: "shaped s f \<Longrightarrow> shaped s (SettingsFolder_patch f d)"
proof (induction f d arbitrary: s rule: SettingsFolder_patch.induct)
  case (1 folder)
  then show ?case by simp
next
  case (2 folder key v rest)
  let ?f' = "(case map_of folder key of
          None \<Rightarrow> folder
        | Some (Leaf _) \<Rightarrow> AList.update key (Leaf v) folder
        | Some (SubFolder sub) \<Rightarrow>
            (case v of
               JObj d \<Rightarrow> AList.update key (SubFolder (SettingsFolder_patch sub d)) folder
             | _ \<Rightarrow> folder))"
  have "shaped s ?f'"
  proof (cases "map_of folder key")
    case None
    then show ?thesis using "2.prems" by simp
  next
    case (Some child)
    show ?thesis
    proof (cases child)
      case (Leaf x)
      then show ?thesis using Some "2.prems" by (simp add: shaped_update_leaf)
    next
      case (SubFolder sub)
      show ?thesis
      proof (cases "isObject v")
        case True
        then obtain d where v: "v = JObj d" by (cases v) auto
        have "shaped s (AList.update key (SubFolder (SettingsFolder_patch sub d)) folder)"
          using "2.prems" Some SubFolder "2.IH"(1)[OF Some SubFolder v]
          by (intro shaped_update_sub[where sub = sub]) simp_all
        then show ?thesis using Some SubFolder v by simp
      next
        case False
        then show ?thesis using Some SubFolder "2.prems" by (cases v) simp_all
      qed
    qed
  qed
  then show ?case using "2.IH"(2) by simp
qed

lemma init_reset_gen:
  "distinct (map fst s2) \<Longrightarrow> map fst f2 = map fst s2 \<Longrightarrow>
   fst ` set d1 \<inter> fst ` set s2 = {} \<Longrightarrow>
   SettingsFolder_init (d1 @ f2) s2 = d1 @ map (\<lambda>(k, piece). (k, piece_default piece)) s2"
proof (induction s2 arbitrary: d1 f2)
  case Nil
  then show ?case by simp
next
  case (Cons a s2)
  obtain key piece where a: "a = (key, piece)" by (cases a)
  from Cons.prems(2) a obtain y f2' where f2: "f2 = (key, y) # f2'"
    and keys: "map fst f2' = map fst s2"
    by (cases f2) auto
  have nk: "key \<notin> fst ` set d1" using Cons.prems(3) a by auto
  have d: "distinct (map fst s2)" and ks: "key \<notin> fst ` set s2" using Cons.prems(1) a by auto
  have disj: "fst ` set (d1 @ [(key, piece_default piece)]) \<inter> fst ` set s2 = {}"
    using Cons.prems(3) a ks by auto
  have "SettingsFolder_init ((d1 @ [(key, piece_default piece)]) @ f2') s2 =
      (d1 @ [(key, piece_default piece)]) @ map (\<lambda>(k, piece). (k, piece_default piece)) s2"
    using Cons.IH[OF d keys disj] .
  then show ?case
    unfolding a f2 init_step by (simp add: update_append_key[OF nk])
qed

lemma init_reset:
  "distinct_keys s \<Longrightarrow> shaped s f \<Longrightarrow> SettingsFolder_init f s = SettingsFolder_init [] s"
  using init_reset_gen[of s f "[]"] init_append[of "[]" s]
  by (simp add: distinct_keys_fst shaped_keys)

lemma settings_inv_new:
  "distinct_keys (gateway_schema g) \<Longrightarrow>
   settings_inv (objects (snd (new_Settings g t i w)) (fst (new_Settings g t i w)))"
  by (simp add: settings_inv_def new_Settings_def Let_def shaped_init)

lemma settings_inv_sync:
  "settings_inv (objects w a) \<Longrightarrow> settings_inv (objects (snd (sync b f w)) a)"
  by (auto simp add: settings_inv_def sync_def Let_def shaped_patch
      split: sum.splits option.splits)

lemma settings_inv_destroy:
  "settings_inv (objects w a) \<Longrightarrow> settings_inv (objects (snd (destroy b w)) a)"
  using settings_inv_sync[of w a b None]
  by (auto simp add: destroy_def Let_def settings_inv_def init_reset shaped_init
      split: sum.splits option.splits prod.splits)

lemma settings_inv_run:
  "settings_inv (objects w a) \<Longrightarrow> settings_inv (objects (run cs b w) a)"
proof (induction cs b w rule: run.induct)
  case (1 this w)
  then show ?case by simp
next
  case (2 force_arg cs this w)
  then show ?case by (simp add: settings_inv_sync)
next
  case (3 cs this w)
  then show ?case by (simp add: settings_inv_destroy)
qed

lemma clone_result:
  "this < next_addr w \<Longrightarrow>
   clone this w =
     (next_addr w,
      w\<lparr>objects := (objects w)(next_addr w :=
           \<lparr>schema = gateway_schema (gateway (objects w this)),
            entries = SettingsFolder_patch
                        (SettingsFolder_init [] (gateway_schema (gateway (objects w this))))
                        (SettingsFolder_toJSON (entries (objects w this))),
            ident = ident (objects w this), gateway = gateway (objects w this),
            target = target (objects w this), existenceStatus = Unsynchronized\<rparr>),
        next_addr := Suc (next_addr w)\<rparr>)"
  by (simp add: clone_def new_Settings_def Let_def)

lemma settings_inv_clone:
  "this < next_addr w \<Longrightarrow> settings_inv (objects w this) \<Longrightarrow>
   settings_inv (objects (snd (clone this w)) (fst (clone this w)))"
  by (auto simp add: clone_result settings_inv_def intro!: shaped_patch shaped_init)

section \<open>Claims about the life cycle of existenceStatus\<close>

text \<open>
  What a call of \<open>destroy\<close> does to the status: when it resolves the status is
  \<open>NotExists\<close>, and when it rejects the status is what the ensured \<open>sync()\<close> left.
\<close>

lemma destroy_resolved_status:
  "fst (destroy this w) = Inr r \<Longrightarrow>
   existenceStatus (objects (snd (destroy this w)) this) = NotExists"
  by (cases "existenceStatus (objects w this)")
    (auto simp add: destroy_def sync_def Let_def split: sum.splits option.splits prod.splits if_splits)

lemma destroy_rejected_status:
  "fst (destroy this w) = Inl err \<Longrightarrow>
   existenceStatus (objects (snd (destroy this w)) this) =
     existenceStatus (objects (snd (sync this None w)) this)"
  by (auto simp add: destroy_def Let_def split: sum.splits option.splits prod.splits if_splits)

lemma demo_destroy_rejected:
  "destroy 0 (demo_world (Some rejectingProvider) demo_storage) =
     (Inl (BackendError ''delete failed''),
      (demo_synced (Some rejectingProvider))
        \<lparr>trace := trace (demo_synced (Some rejectingProvider)) @
           [ProviderDelete ''guilds'' ''42'']\<rparr>)"
  by (simp add: destroy_def demo_sync_found Let_def demo_synced_def demo_gateway_simps
      rejectingProvider_def demo_world_simps)

lemma demo_destroy_resolved:
  "fst (destroy 0 (demo_synced (Some tableProvider))) = Inr 0"
  by (simp add: destroy_def sync_def Let_def demo_synced_simps demo_gateway_simps
      tableProvider_def)

text \<open>
  Claim C4, as amended.  The constructor leaves \<open>existenceStatus\<close> at \<open>Unsynchronized\<close>.
  Once the status is no longer \<open>Unsynchronized\<close>, no sequence of \<open>sync\<close> and \<open>destroy\<close>
  calls on the entity (with any \<open>force\<close> arguments, rejected calls included) makes it
  \<open>Unsynchronized\<close> again.  A call of \<open>sync\<close> leaves the status as it was or moves it to
  \<open>Exists\<close> or \<open>NotExists\<close>.  A call of \<open>destroy\<close> that resolves ends at \<open>NotExists\<close>;
  a call of \<open>destroy\<close> that rejects leaves the status as its ensured \<open>sync()\<close> left it.
\<close>

theorem existenceStatus_lifecycle:
  "existenceStatus (objects (snd (new_Settings g t i w0)) (fst (new_Settings g t i w0)))
     = Unsynchronized \<and>
   (existenceStatus (objects w this) \<noteq> Unsynchronized \<longrightarrow>
      existenceStatus (objects (run cs this w) this) \<noteq> Unsynchronized) \<and>
   existenceStatus (objects (snd (sync this force_arg w)) this)
     \<in> {existenceStatus (objects w this), Exists, NotExists} \<and>
   (fst (destroy this w) = Inr r \<longrightarrow>
      existenceStatus (objects (snd (destroy this w)) this) = NotExists) \<and>
   (fst (destroy this w) = Inl err \<longrightarrow>
      existenceStatus (objects (snd (destroy this w)) this) =
        existenceStatus (objects (snd (sync this None w)) this))"
proof (intro conjI impI)
  show "existenceStatus (objects (snd (new_Settings g t i w0)) (fst (new_Settings g t i w0)))
     = Unsynchronized"
    by (simp add: new_Settings_def Let_def)
next
  assume "existenceStatus (objects w this) \<noteq> Unsynchronized"
  then show "existenceStatus (objects (run cs this w) this) \<noteq> Unsynchronized"
    by (rule run_status)
next
  show "existenceStatus (objects (snd (sync this force_arg w)) this)
     \<in> {existenceStatus (objects w this), Exists, NotExists}"
    by (rule sync_status)
next
  assume "fst (destroy this w) = Inr r"
  then show "existenceStatus (objects (snd (destroy this w)) this) = NotExists"
    by (rule destroy_resolved_status)
next
  assume "fst (destroy this w) = Inl err"
  then show "existenceStatus (objects (snd (destroy this w)) this) =
        existenceStatus (objects (snd (sync this None w)) this)"
    by (rule destroy_rejected_status)
qed

text \<open>
  The entity of the concrete gateway, synchronized with its row: three further calls,
  one of which deletes the row, leave it resolved, and \<open>destroy\<close> resolves and ends at
  \<open>NotExists\<close>.  With the provider whose delete rejects, \<open>destroy\<close> on the fresh entity
  rejects and leaves the status of its ensured \<open>sync()\<close>.
\<close>

theorem existenceStatus_lifecycle_witness:
  "existenceStatus (objects (demo_synced (Some tableProvider)) 0) = Exists \<and>
   existenceStatus
     (objects (run [Sync None, Destroy, Sync None] 0 (demo_synced (Some tableProvider))) 0)
     \<noteq> Unsynchronized \<and>
   fst (destroy 0 (demo_synced (Some tableProvider))) = Inr 0 \<and>
   existenceStatus (objects (snd (destroy 0 (demo_synced (Some tableProvider)))) 0) = NotExists \<and>
   fst (destroy 0 (demo_world (Some rejectingProvider) demo_storage)) =
     Inl (BackendError ''delete failed'') \<and>
   existenceStatus (objects (snd (destroy 0 (demo_world (Some rejectingProvider) demo_storage))) 0) =
     existenceStatus (objects (snd (sync 0 None (demo_world (Some rejectingProvider) demo_storage))) 0)"
proof -
  let ?W = "demo_synced (Some tableProvider)"
  let ?V = "demo_world (Some rejectingProvider) demo_storage"
  have a: "existenceStatus (objects ?W 0) = Exists"
    by (simp add: demo_synced_simps)
  then have a': "existenceStatus (objects ?W 0) \<noteq> Unsynchronized"
    by simp
  have r: "fst (destroy 0 ?W) = Inr 0" by (rule demo_destroy_resolved)
  have e: "fst (destroy 0 ?V) = Inl (BackendError ''delete failed'')"
    by (simp add: demo_destroy_rejected)
  note T = existenceStatus_lifecycle[where w = ?W and this = 0
        and cs = "[Sync None, Destroy, Sync None]" and r = 0]
    and U = existenceStatus_lifecycle[where w = ?V and this = 0
        and err = "BackendError ''delete failed''"]
  show ?thesis
    using a a' r e T U by blast
qed

text \<open>
  Claim C4 as stated fails: "\<open>destroy()\<close> only moves it to \<open>NotExists\<close>".  The entity of
  the concrete gateway is fresh (\<open>Unsynchronized\<close>) and its row exists; the provider's
  delete rejects.  \<open>destroy()\<close> rejects, and the status has moved to \<open>Exists\<close>: the
  ensured \<open>sync()\<close> found the row before the delete was tried.
\<close>

theorem destroy_rejected_ends_at_Exists:
  "existenceStatus (objects (demo_world (Some rejectingProvider) demo_storage) 0)
     = Unsynchronized \<and>
   fst (destroy 0 (demo_world (Some rejectingProvider) demo_storage)) =
     Inl (BackendError ''delete failed'') \<and>
   existenceStatus (objects (snd (destroy 0 (demo_world (Some rejectingProvider) demo_storage))) 0)
     = Exists"
  by (simp add: demo_destroy_rejected demo_world_simps demo_synced_simps)

section \<open>Claims about Settings.destroy\<close>

text \<open>
  Claim C5.  If the ensured \<open>sync()\<close> of \<open>destroy\<close> resolves and leaves the status at
  \<open>Exists\<close>, and the gateway's provider is \<^verbatim>\<open>null\<close>, then \<open>destroy\<close> throws its own
  error to the caller and the world is exactly as the ensured \<open>sync()\<close> left it: the
  status is still \<open>Exists\<close>, the trace has gained neither a \<open>provider.delete\<close> nor a
  delete event, and the folder's values are not reset.
\<close>

theorem destroy_without_provider_throws:
  "sync this None w = (Inr r, w1) \<and>
   existenceStatus (objects w1 this) = Exists \<and>
   provider (gateway (objects w1 this)) = None \<longrightarrow>
   destroy this w = (Inl ProviderUnavailable, w1) \<and>
   existenceStatus (objects (snd (destroy this w)) this) = Exists \<and>
   trace (snd (destroy this w)) = trace w1 \<and>
   entries (objects (snd (destroy this w)) this) = entries (objects w1 this)"
  by (simp add: destroy_def)

text \<open>
  Without a provider, the entity of the concrete gateway: \<open>destroy\<close> on the fresh entity,
  whose ensured \<open>sync()\<close> finds the row, and \<open>destroy\<close> on the entity already
  synchronized, which the failing call leaves unchanged.
\<close>

theorem destroy_without_provider_throws_witness:
  "sync 0 None (demo_world None demo_storage) = (Inr 0, demo_synced None) \<and>
   existenceStatus (objects (demo_synced None) 0) = Exists \<and>
   provider (gateway (objects (demo_synced None) 0)) = None \<and>
   destroy 0 (demo_world None demo_storage) = (Inl ProviderUnavailable, demo_synced None) \<and>
   destroy 0 (demo_synced None) = (Inl ProviderUnavailable, demo_synced None)"
proof -
  have s: "sync 0 None (demo_world None demo_storage) = (Inr 0, demo_synced None)"
    by (simp add: demo_synced_def demo_sync_found)
  have s': "sync 0 None (demo_synced None) = (Inr 0, demo_synced None)"
    by (simp add: sync_def demo_synced_simps)
  have e: "existenceStatus (objects (demo_synced None) 0) = Exists"
    and p: "provider (gateway (objects (demo_synced None) 0)) = None"
    by (simp_all add: demo_synced_simps demo_gateway_simps)
  show ?thesis
    using s s' e p
      destroy_without_provider_throws[of 0 "demo_world None demo_storage" 0 "demo_synced None"]
      destroy_without_provider_throws[of 0 "demo_synced None" 0 "demo_synced None"]
    by blast
qed

text \<open>
  Claim C6.  If the ensured \<open>sync()\<close> of \<open>destroy\<close> resolves and leaves the status at
  \<open>Exists\<close>, the provider is available and its \<open>delete\<close> resolves, then \<open>destroy\<close>
  returns the same entity, and what it did after the ensured \<open>sync()\<close> is: first
  \<open>provider.delete(gateway.name, id)\<close>, then the event \<open>settingsDelete\<close> with the entity
  as payload (the payload still has status \<open>Exists\<close> and the values from before the
  reset), then the folder reset by \<open>_init\<close> and the status set to \<open>NotExists\<close>.  After
  the reset every field of a schema with unique keys holds its schema default.
\<close>

theorem destroy_existing_entry:
  "sync this None w = (Inr r, w1) \<and>
   e = objects w1 this \<and>
   existenceStatus e = Exists \<and>
   provider (gateway e) = Some p \<and>
   provider_delete p (name (gateway e)) (ident e) (storage w1) = (Inr u, st) \<longrightarrow>
   destroy this w =
     (Inr this,
      w1\<lparr>objects := (objects w1)(this :=
             e\<lparr>entries := SettingsFolder_init (entries e) (schema e),
               existenceStatus := NotExists\<rparr>),
         storage := st,
         trace := trace w1 @
           [ProviderDelete (name (gateway e)) (ident e), Emit ''settingsDelete'' this e]\<rparr>) \<and>
   (distinct_keys (schema e) \<longrightarrow>
     (\<forall>pth d. schemaDefault (schema e) pth = Some d \<longrightarrow>
        folderGet (entries (objects (snd (destroy this w)) this)) pth = Some d))"
proof (intro impI)
  assume h: "sync this None w = (Inr r, w1) \<and>
   e = objects w1 this \<and>
   existenceStatus e = Exists \<and>
   provider (gateway e) = Some p \<and>
   provider_delete p (name (gateway e)) (ident e) (storage w1) = (Inr u, st)"
  then have d: "destroy this w =
     (Inr this,
      w1\<lparr>objects := (objects w1)(this :=
             e\<lparr>entries := SettingsFolder_init (entries e) (schema e),
               existenceStatus := NotExists\<rparr>),
         storage := st,
         trace := trace w1 @
           [ProviderDelete (name (gateway e)) (ident e), Emit ''settingsDelete'' this e]\<rparr>)"
    by (auto simp add: destroy_def Let_def)
  have "distinct_keys (schema e) \<longrightarrow>
     (\<forall>pth d. schemaDefault (schema e) pth = Some d \<longrightarrow>
        folderGet (entries (objects (snd (destroy this w)) this)) pth = Some d)"
    by (simp add: d init_default)
  with d show "destroy this w =
     (Inr this,
      w1\<lparr>objects := (objects w1)(this :=
             e\<lparr>entries := SettingsFolder_init (entries e) (schema e),
               existenceStatus := NotExists\<rparr>),
         storage := st,
         trace := trace w1 @
           [ProviderDelete (name (gateway e)) (ident e), Emit ''settingsDelete'' this e]\<rparr>) \<and>
   (distinct_keys (schema e) \<longrightarrow>
     (\<forall>pth d. schemaDefault (schema e) pth = Some d \<longrightarrow>
        folderGet (entries (objects (snd (destroy this w)) this)) pth = Some d))"
    by blast
qed

text \<open>
  With the table provider, \<open>destroy\<close> on the synchronized entity of the concrete gateway
  deletes row 42, emits the event, resets the prefix to \<open>!\<close> and ends at \<open>NotExists\<close>.
\<close>

theorem destroy_existing_entry_witness:
  "sync 0 None (demo_synced (Some tableProvider)) = (Inr 0, demo_synced (Some tableProvider)) \<and>
   existenceStatus (objects (demo_synced (Some tableProvider)) 0) = Exists \<and>
   provider (gateway (objects (demo_synced (Some tableProvider)) 0)) = Some tableProvider \<and>
   fst (destroy 0 (demo_synced (Some tableProvider))) = Inr 0 \<and>
   trace (snd (destroy 0 (demo_synced (Some tableProvider)))) =
     trace (demo_synced (Some tableProvider)) @
       [ProviderDelete ''guilds'' ''42'',
        Emit ''settingsDelete'' 0 (objects (demo_synced (Some tableProvider)) 0)] \<and>
   storage (snd (destroy 0 (demo_synced (Some tableProvider)))) ''guilds'' ''42'' = None \<and>
   existenceStatus (objects (snd (destroy 0 (demo_synced (Some tableProvider)))) 0) = NotExists \<and>
   folderGet (entries (objects (snd (destroy 0 (demo_synced (Some tableProvider)))) 0))
     [''prefix''] = Some (JStr ''!'')"
proof -
  let ?W = "demo_synced (Some tableProvider)"
  let ?st = "demo_storage(''guilds'' := (demo_storage ''guilds'')(''42'' := None))"
  have s: "sync 0 None ?W = (Inr 0, ?W)"
    by (simp add: sync_def demo_synced_simps)
  have e: "existenceStatus (objects ?W 0) = Exists"
    and p: "provider (gateway (objects ?W 0)) = Some tableProvider"
    and n: "name (gateway (objects ?W 0)) = ''guilds''"
    and i: "ident (objects ?W 0) = ''42''"
    and sc: "schema (objects ?W 0) = demo_schema"
    by (simp_all add: demo_synced_simps demo_gateway_simps)
  have del: "provider_delete tableProvider (name (gateway (objects ?W 0))) (ident (objects ?W 0))
      (storage ?W) = (Inr (), ?st)"
    by (simp add: tableProvider_def demo_synced_simps demo_gateway_simps)
  note T = destroy_existing_entry[where this = 0 and w = ?W and r = 0 and ?w1.0 = ?W
      and e = "objects ?W 0" and p = tableProvider and u = "()" and st = ?st,
      rule_format, OF conjI[OF s conjI[OF refl conjI[OF e conjI[OF p del]]]]]
  have dflt: "schemaDefault (schema (objects ?W 0)) [''prefix''] = Some (JStr ''!'')"
    by (simp add: sc demo_schema_def)
  have dk: "distinct_keys (schema (objects ?W 0))"
    by (simp add: sc demo_schema_distinct)
  have v: "folderGet (entries (objects (snd (destroy 0 ?W)) 0)) [''prefix''] = Some (JStr ''!'')"
    using T[THEN conjunct2] dk dflt by blast
  show ?thesis
    using s e p v by (simp add: T[THEN conjunct1] n i)
qed

text \<open>
  Claim C7.  If the ensured \<open>sync()\<close> of \<open>destroy\<close> resolves and leaves a status other
  than \<open>Exists\<close>, then \<open>destroy\<close> returns the entity and the world is exactly as the
  ensured \<open>sync()\<close> left it: no \<open>provider.delete\<close> and no other storage call is added
  to the trace, storage is untouched, and the entity's values and status are those the
  \<open>sync()\<close> left.
\<close>

theorem destroy_absent_entry:
  "sync this None w = (Inr r, w1) \<and> existenceStatus (objects w1 this) \<noteq> Exists \<longrightarrow>
   destroy this w = (Inr this, w1) \<and>
   trace (snd (destroy this w)) = trace w1 \<and>
   storage (snd (destroy this w)) = storage w1 \<and>
   objects (snd (destroy this w)) this = objects w1 this"
  by (simp add: destroy_def)

text \<open>
  The fresh entity of the concrete gateway, with no row in storage: the only effect of
  \<open>destroy\<close> is the fetch of its ensured \<open>sync()\<close>.
\<close>

theorem destroy_absent_entry_witness:
  "sync 0 None (demo_world (Some tableProvider) empty_storage) =
     (Inr 0, snd (sync 0 None (demo_world (Some tableProvider) empty_storage))) \<and>
   existenceStatus
     (objects (snd (sync 0 None (demo_world (Some tableProvider) empty_storage))) 0) = NotExists \<and>
   destroy 0 (demo_world (Some tableProvider) empty_storage) =
     (Inr 0, snd (sync 0 None (demo_world (Some tableProvider) empty_storage))) \<and>
   trace (snd (destroy 0 (demo_world (Some tableProvider) empty_storage))) = [Push ''42'']"
proof -
  let ?W = "demo_world (Some tableProvider) empty_storage"
  have s: "sync 0 None ?W = (Inr 0, snd (sync 0 None ?W))"
    by (simp add: demo_sync_absent)
  have e: "existenceStatus (objects (snd (sync 0 None ?W)) 0) = NotExists"
    by (simp add: demo_sync_absent)
  then have ne: "existenceStatus (objects (snd (sync 0 None ?W)) 0) \<noteq> Exists" by simp
  have d: "destroy 0 ?W = (Inr 0, snd (sync 0 None ?W))"
    using destroy_absent_entry[of 0 ?W 0 "snd (sync 0 None ?W)"] s ne by blast
  have t: "trace (snd (destroy 0 ?W)) = [Push ''42'']"
    by (simp add: d demo_sync_absent demo_world_simps)
  show ?thesis using s e d t by blast
qed

section \<open>Lemmas: reading the heap\<close>

lemma folder_tree_cong:
  "(\<forall>k \<in> fst ` set sch. map_of es' k = map_of es k) \<Longrightarrow>
   (\<forall>x \<in> set (sub_addrs (folder_tree h sch es)). folders h' x = folders h x) \<Longrightarrow>
   folder_tree h' sch es' = folder_tree h sch es"
proof (induction h sch es arbitrary: es' rule: folder_tree.induct)
  case (1 h es)
  then show ?case by simp
next
  case (2 h key e rest es)
  have "folder_tree h' rest es' = folder_tree h rest es"
    using "2.IH"[of es'] "2.prems" by (auto split: option.splits child.splits)
  moreover have "map_of es' key = map_of es key" using "2.prems"(1) by simp
  ultimately show ?case by simp
next
  case (3 h key sub rest es)
  have k: "map_of es' key = map_of es key" using "3.prems"(1) by simp
  have r: "folder_tree h' rest es' = folder_tree h rest es"
    using "3.IH"(2)[of es'] "3.prems" by (auto split: option.splits child.splits)
  show ?case
  proof (cases "map_of es key")
    case None
    then show ?thesis using k r by simp
  next
    case (Some c)
    show ?thesis
    proof (cases c)
      case (Sub a)
      have fa: "folders h' a = folders h a"
        using "3.prems"(2) Some Sub by simp
      have "folder_tree h' sub (folders h a) = folder_tree h sub (folders h a)"
        using "3.IH"(1)[OF Some Sub, of "folders h a"] "3.prems"(2) Some Sub by simp
      then show ?thesis using k r Some Sub fa by simp
    qed (use k r Some in simp_all)
  qed
qed

lemma folder_tree_frame:
  "folders h' a = folders h a \<Longrightarrow>
   (\<forall>x \<in> set (sub_addrs (folder_tree h sch (folders h a))). folders h' x = folders h x) \<Longrightarrow>
   folder_tree h' sch (folders h' a) = folder_tree h sch (folders h a)"
  using folder_tree_cong[of sch "folders h' a" "folders h a" h h'] by simp

lemma shaped_h_cong:
  "(\<forall>k \<in> fst ` set sch. map_of es' k = map_of es k) \<Longrightarrow>
   (\<forall>x \<in> set (sub_addrs (folder_tree h sch es)). folders h' x = folders h x) \<Longrightarrow>
   shaped_h h' sch es' = shaped_h h sch es"
proof (induction h sch es arbitrary: es' rule: folder_tree.induct)
  case (1 h es)
  then show ?case by simp
next
  case (2 h key e rest es)
  have "shaped_h h' rest es' = shaped_h h rest es"
    using "2.IH"[of es'] "2.prems" by (auto split: option.splits child.splits)
  moreover have "map_of es' key = map_of es key" using "2.prems"(1) by simp
  ultimately show ?case by simp
next
  case (3 h key sub rest es)
  have k: "map_of es' key = map_of es key" using "3.prems"(1) by simp
  have r: "shaped_h h' rest es' = shaped_h h rest es"
    using "3.IH"(2)[of es'] "3.prems" by (auto split: option.splits child.splits)
  show ?case
  proof (cases "map_of es key")
    case None
    then show ?thesis using k r by simp
  next
    case (Some c)
    show ?thesis
    proof (cases c)
      case (Sub a)
      have fa: "folders h' a = folders h a"
        using "3.prems"(2) Some Sub by simp
      have "shaped_h h' sub (folders h a) = shaped_h h sub (folders h a)"
        using "3.IH"(1)[OF Some Sub, of "folders h a"] "3.prems"(2) Some Sub by simp
      then show ?thesis using k r Some Sub fa by simp
    qed (use k r Some in simp_all)
  qed
qed

lemma tree_json_cong:
  "(\<forall>b \<in> box_addrs t. bx' b = bx b) \<Longrightarrow> tree_json bx' t = tree_json bx t"
  by (induction bx t rule: tree_json.induct) auto

lemma snap_json_cong:
  "(\<forall>b \<in> snap_boxes d. bx' b = bx b) \<Longrightarrow> snap_json bx' d = snap_json bx d"
  by (induction bx d rule: snap_json.induct) auto


section \<open>Lemmas: heap cells\<close>

lemma set_child_simps:
  "folders (set_child a k c h) x = (if x = a then AList.update k c (folders h a) else folders h x)"
  "boxes (set_child a k c h) = boxes h"
  "obj_fields (set_child a k c h) = obj_fields h"
  "next_free (set_child a k c h) = next_free h"
  by (simp_all add: set_child_def)

lemma map_of_set_child:
  "map_of (folders (set_child a k c h) a) k' = (if k' = k then Some c else map_of (folders h a) k')"
  by (simp add: set_child_def update_conv')

lemma init_h_frame:
  "a < next_free h \<Longrightarrow>
   next_free h \<le> next_free (init_h a sch h) \<and>
   obj_fields (init_h a sch h) = obj_fields h \<and>
   (\<forall>x < next_free h. boxes (init_h a sch h) x = boxes h x) \<and>
   (\<forall>x < next_free h. x \<noteq> a \<longrightarrow> folders (init_h a sch h) x = folders h x) \<and>
   (\<forall>k. k \<notin> fst ` set sch \<longrightarrow> map_of (folders (init_h a sch h) a) k = map_of (folders h a) k)"
proof (induction a sch h rule: init_h.induct)
  case (1 a h)
  then show ?case by simp
next
  case (2 a key e rest h)
  show ?case
  proof (cases "prim_of (default_value e)")
    case (Some p)
    let ?h0 = "set_child a key (Inline p) h"
    have "a < next_free ?h0" using "2.prems" by (simp add: set_child_simps)
    from "2.IH"(2)[OF Some this] show ?thesis
      using Some by (simp add: set_child_simps update_conv')
  next
    case None
    let ?h1 = "snd (alloc_box (default_value e) h)"
    let ?h0 = "set_child a key (Boxed (next_free h)) ?h1"
    have ab: "alloc_box (default_value e) h = (next_free h, ?h1)" by (simp add: alloc_box_def)
    have "a < next_free ?h0" using "2.prems" by (simp add: set_child_simps alloc_box_def)
    from "2.IH"(1)[OF None refl ab[symmetric] this] show ?thesis
      using None "2.prems" by (simp add: set_child_simps update_conv' alloc_box_def)
  qed
next
  case (3 a key sub rest h)
  let ?b = "next_free h"
  let ?h1 = "snd (alloc_folder h)"
  let ?h2 = "init_h ?b sub ?h1"
  let ?h3 = "set_child a key (Sub ?b) ?h2"
  have af: "(?b, ?h1) = alloc_folder h" by (simp add: alloc_folder_def)
  have b1: "?b < next_free ?h1" by (simp add: alloc_folder_def)
  note s = "3.IH"(1)[OF refl af b1]
  have a3: "a < next_free ?h3" using "3.prems" s by (simp add: set_child_simps alloc_folder_def)
  note r = "3.IH"(2)[OF refl af refl a3]
  have ne: "a \<noteq> ?b" using "3.prems" by simp
  have e: "init_h a ((key, PieceFolder sub) # rest) h = init_h a rest ?h3"
    by (simp add: alloc_folder_def Let_def)
  show ?case unfolding e
    using s r "3.prems" ne by (simp add: set_child_simps update_conv' alloc_folder_def)
qed


lemma addrs_join:
  assumes "set xs \<union> A \<subseteq> {Suc b ..< n2}" "distinct xs"
    and "set ys \<union> B \<subseteq> {n2 ..< n'}" "distinct ys"
    and "Suc b \<le> n2" "n2 \<le> n'"
  shows "set (b # xs @ ys) \<union> (A \<union> B) \<subseteq> {b ..< n'} \<and> distinct (b # xs @ ys)"
proof -
  have x: "\<And>x. x \<in> set xs \<union> A \<Longrightarrow> Suc b \<le> x \<and> x < n2" using assms(1) by auto
  have y: "\<And>y. y \<in> set ys \<union> B \<Longrightarrow> n2 \<le> y \<and> y < n'" using assms(3) by auto
  have 1: "b \<notin> set xs" using x[of b] by auto
  have 2: "b \<notin> set ys" using y[of b] assms(5) by auto
  have 3: "set xs \<inter> set ys = {}" using x y by fastforce
  have 4: "set (b # xs @ ys) \<union> (A \<union> B) \<subseteq> {b ..< n'}"
  proof
    fix z assume "z \<in> set (b # xs @ ys) \<union> (A \<union> B)"
    then consider "z = b" | "z \<in> set xs \<union> A" | "z \<in> set ys \<union> B" by auto
    then show "z \<in> {b ..< n'}"
    proof cases
      case 1 then show ?thesis using assms(5,6) by simp
    next
      case 2 then show ?thesis using x[OF 2] assms(6) by simp
    next
      case 3 then show ?thesis using y[OF 3] assms(5) by simp
    qed
  qed
  show ?thesis using 1 2 3 4 assms(2,4) by simp
qed

lemma init_h_tree:
  "a < next_free h \<Longrightarrow> distinct_keys sch \<Longrightarrow>
   shaped_h (init_h a sch h) sch (folders (init_h a sch h) a) \<and>
   set (sub_addrs (folder_tree (init_h a sch h) sch (folders (init_h a sch h) a))) \<union>
     box_addrs (folder_tree (init_h a sch h) sch (folders (init_h a sch h) a))
       \<subseteq> {next_free h ..< next_free (init_h a sch h)} \<and>
   distinct (sub_addrs (folder_tree (init_h a sch h) sch (folders (init_h a sch h) a)))"
proof (induction a sch h rule: init_h.induct)
  case (1 a h)
  then show ?case by simp
next
  case (2 a key e rest h)
  have kr: "key \<notin> fst ` set rest" and dr: "distinct_keys rest" using "2.prems"(2) by simp_all
  show ?case
  proof (cases "prim_of (default_value e)")
    case (Some p)
    let ?h0 = "set_child a key (Inline p) h"
    let ?h' = "init_h a rest ?h0"
    have a0: "a < next_free ?h0" using "2.prems" by (simp add: set_child_simps)
    have e: "init_h a ((key, PieceEntry e) # rest) h = ?h'" using Some by simp
    have k: "map_of (folders ?h' a) key = Some (Inline p)"
      using init_h_frame[OF a0, of rest] kr by (simp add: set_child_simps update_conv')
    from "2.IH"(2)[OF Some a0 dr] show ?thesis unfolding e
      using k by (simp add: set_child_simps)
  next
    case None
    let ?b = "next_free h"
    let ?h1 = "snd (alloc_box (default_value e) h)"
    let ?h0 = "set_child a key (Boxed ?b) ?h1"
    let ?h' = "init_h a rest ?h0"
    have ab: "alloc_box (default_value e) h = (?b, ?h1)" by (simp add: alloc_box_def)
    have a0: "a < next_free ?h0" using "2.prems" by (simp add: set_child_simps alloc_box_def)
    have n0: "next_free ?h0 = Suc ?b" by (simp add: set_child_simps alloc_box_def)
    have e: "init_h a ((key, PieceEntry e) # rest) h = ?h'"
      using None by (simp add: alloc_box_def)
    have k: "map_of (folders ?h' a) key = Some (Boxed ?b)"
      using init_h_frame[OF a0, of rest] kr by (simp add: set_child_simps update_conv')
    have m: "Suc ?b \<le> next_free ?h'" using init_h_frame[OF a0, of rest] n0 by simp
    from "2.IH"(1)[OF None refl ab[symmetric] a0 dr] show ?thesis unfolding e
      using k m n0 by auto
  qed
next
  case (3 a key sub rest h)
  have kr: "key \<notin> fst ` set rest" and ds: "distinct_keys sub" and dr: "distinct_keys rest"
    using "3.prems"(2) by simp_all
  let ?b = "next_free h"
  let ?h1 = "snd (alloc_folder h)"
  let ?h2 = "init_h ?b sub ?h1"
  let ?h3 = "set_child a key (Sub ?b) ?h2"
  let ?h' = "init_h a rest ?h3"
  let ?Ts = "folder_tree ?h2 sub (folders ?h2 ?b)"
  let ?Tr = "folder_tree ?h' rest (folders ?h' a)"
  have af: "(?b, ?h1) = alloc_folder h" by (simp add: alloc_folder_def)
  have n1: "next_free ?h1 = Suc ?b" by (simp add: alloc_folder_def)
  have b1: "?b < next_free ?h1" by (simp add: alloc_folder_def)
  note fs = init_h_frame[OF b1, of sub]
  have n3: "next_free ?h3 = next_free ?h2" by (simp add: set_child_simps)
  have a3: "a < next_free ?h3" using "3.prems"(1) fs n1 n3 by simp
  note fr = init_h_frame[OF a3, of rest]
  have ne: "a \<noteq> ?b" using "3.prems"(1) by simp
  have e: "init_h a ((key, PieceFolder sub) # rest) h = ?h'"
    by (simp add: alloc_folder_def Let_def)
  note s = "3.IH"(1)[OF refl af b1 ds]
  note r = "3.IH"(2)[OF refl af refl a3 dr]
  have k: "map_of (folders ?h' a) key = Some (Sub ?b)"
    using fr kr by (simp add: set_child_simps update_conv')
  have b2: "?b < next_free ?h3" using fs n1 n3 by simp
  have fb: "folders ?h' ?b = folders ?h2 ?b"
    using fr b2 ne by (simp add: set_child_simps)
  have sub_lt: "\<forall>x \<in> set (sub_addrs ?Ts). folders ?h' x = folders ?h2 x"
  proof
    fix x assume "x \<in> set (sub_addrs ?Ts)"
    then have "Suc ?b \<le> x \<and> x < next_free ?h2" using s n1 by auto
    then have "x < next_free ?h3 \<and> x \<noteq> a" using n3 "3.prems"(1) by simp
    then show "folders ?h' x = folders ?h2 x" using fr by (simp add: set_child_simps)
  qed
  have ts: "folder_tree ?h' sub (folders ?h' ?b) = ?Ts"
    using folder_tree_frame[OF fb sub_lt] .
  have ss: "shaped_h ?h' sub (folders ?h' ?b) = shaped_h ?h2 sub (folders ?h2 ?b)"
    unfolding fb using shaped_h_cong[of sub "folders ?h2 ?b" "folders ?h2 ?b" ?h2 ?h'] sub_lt by simp
  have m2: "Suc ?b \<le> next_free ?h2" using fs n1 by simp
  have m3: "next_free ?h2 \<le> next_free ?h'" using fr n3 by simp
  have T: "folder_tree ?h' ((key, PieceFolder sub) # rest) (folders ?h' a) =
             (key, LSub ?b ?Ts) # ?Tr"
    using k ts by simp
  have sh: "shaped_h ?h' ((key, PieceFolder sub) # rest) (folders ?h' a)"
    using k ss s r by simp
  have j: "set (?b # sub_addrs ?Ts @ sub_addrs ?Tr) \<union> (box_addrs ?Ts \<union> box_addrs ?Tr)
             \<subseteq> {?b ..< next_free ?h'} \<and> distinct (?b # sub_addrs ?Ts @ sub_addrs ?Tr)"
  proof (rule addrs_join)
    show "set (sub_addrs ?Ts) \<union> box_addrs ?Ts \<subseteq> {Suc ?b ..< next_free ?h2}"
      using s unfolding n1 by blast
    show "distinct (sub_addrs ?Ts)" using s by blast
    show "set (sub_addrs ?Tr) \<union> box_addrs ?Tr \<subseteq> {next_free ?h2 ..< next_free ?h'}"
      using r unfolding n3 by blast
    show "distinct (sub_addrs ?Tr)" using r by blast
    show "Suc ?b \<le> next_free ?h2" by (rule m2)
    show "next_free ?h2 \<le> next_free ?h'" by (rule m3)
  qed
  show ?case unfolding e T using sh j by (simp only: sub_addrs.simps box_addrs.simps)
qed

section \<open>Lemmas: the snapshot taken by toJSON\<close>

lemma toJSON_h_entry:
  "toJSON_h ((key, PieceEntry e) # rest) es h =
     (case map_of es key of
        Some (Inline p) \<Rightarrow> ((key, SPrim p) # fst (toJSON_h rest es h), snd (toJSON_h rest es h))
      | Some (Boxed b) \<Rightarrow>
          ((key, SBox (next_free h)) # fst (toJSON_h rest es (snd (alloc_box (boxes h b) h))),
           snd (toJSON_h rest es (snd (alloc_box (boxes h b) h))))
      | _ \<Rightarrow> toJSON_h rest es h)"
  by (simp add: split_beta alloc_box_def split: option.splits child.splits)

lemma toJSON_h_folder:
  "toJSON_h ((key, PieceFolder sub) # rest) es h =
     (case map_of es key of
        Some (Sub a) \<Rightarrow>
          ((key, SObj (fst (toJSON_h sub (folders h a) h))) #
             fst (toJSON_h rest es (snd (toJSON_h sub (folders h a) h))),
           snd (toJSON_h rest es (snd (toJSON_h sub (folders h a) h))))
      | _ \<Rightarrow> toJSON_h rest es h)"
  by (simp add: split_beta split: option.splits child.splits)

declare toJSON_h.simps(2,3) [simp del]

lemma toJSON_h_frame:
  "folders (snd (toJSON_h sch es h)) = folders h \<and>
   obj_fields (snd (toJSON_h sch es h)) = obj_fields h \<and>
   next_free h \<le> next_free (snd (toJSON_h sch es h)) \<and>
   (\<forall>x < next_free h. boxes (snd (toJSON_h sch es h)) x = boxes h x)"
proof (induction sch arbitrary: es h rule: distinct_keys.induct)
  case 1
  then show ?case by simp
next
  case (2 k e rest)
  show ?case
  proof (cases "map_of es k")
    case None
    then show ?thesis using "2.IH"[of es h] by (simp add: toJSON_h_entry)
  next
    case (Some c)
    show ?thesis
    proof (cases c)
      case (Inline p)
      then show ?thesis using Some "2.IH"[of es h] by (simp add: toJSON_h_entry)
    next
      case (Boxed b)
      then show ?thesis
        using Some "2.IH"[of es "snd (alloc_box (boxes h b) h)"]
        by (simp add: toJSON_h_entry alloc_box_def)
    next
      case (Sub a)
      then show ?thesis using Some "2.IH"[of es h] by (simp add: toJSON_h_entry)
    qed
  qed
next
  case (3 k sub rest)
  show ?case
  proof (cases "map_of es k")
    case None
    then show ?thesis using "3.IH"(2)[of es h] by (simp add: toJSON_h_folder)
  next
    case (Some c)
    show ?thesis
    proof (cases c)
      case (Inline p)
      then show ?thesis using Some "3.IH"(2)[of es h] by (simp add: toJSON_h_folder)
    next
      case (Boxed b)
      then show ?thesis using Some "3.IH"(2)[of es h] by (simp add: toJSON_h_folder)
    next
      case (Sub a)
      let ?h1 = "snd (toJSON_h sub (folders h a) h)"
      note s = "3.IH"(1)[of "folders h a" h]
      note r = "3.IH"(2)[of es ?h1]
      have e: "snd (toJSON_h ((k, PieceFolder sub) # rest) es h) = snd (toJSON_h rest es ?h1)"
        using Some Sub by (simp add: toJSON_h_folder)
      show ?thesis unfolding e using s r by auto
    qed
  qed
qed

lemma folder_tree_same_folders:
  "folders h' = folders h \<Longrightarrow> folder_tree h' sch es = folder_tree h sch es"
  using folder_tree_cong[of sch es es h h'] by simp

lemma shaped_h_same_folders:
  "folders h' = folders h \<Longrightarrow> shaped_h h' sch es = shaped_h h sch es"
  using shaped_h_cong[of sch es es h h'] by simp

lemma toJSON_h_shaped:
  "shaped_h h sch es \<Longrightarrow> snap_shaped sch (fst (toJSON_h sch es h))"
proof (induction sch arbitrary: es h rule: distinct_keys.induct)
  case 1
  then show ?case by simp
next
  case (2 k e rest)
  show ?case
  proof (cases "map_of es k")
    case None
    then show ?thesis using "2.prems" by simp
  next
    case (Some c)
    show ?thesis
    proof (cases c)
      case (Inline p)
      then show ?thesis using Some "2.prems" "2.IH"[of h es] by (simp add: toJSON_h_entry)
    next
      case (Boxed b)
      let ?h1 = "snd (alloc_box (boxes h b) h)"
      have "folders ?h1 = folders h" by (simp add: alloc_box_def)
      then have "shaped_h ?h1 rest es"
        using "2.prems" shaped_h_same_folders[of ?h1 h rest es] by simp
      then show ?thesis using Some Boxed "2.IH"[of ?h1 es] by (simp add: toJSON_h_entry)
    next
      case (Sub a)
      then show ?thesis using Some "2.prems" by simp
    qed
  qed
next
  case (3 k sub rest)
  show ?case
  proof (cases "map_of es k")
    case None
    then show ?thesis using "3.prems" by simp
  next
    case (Some c)
    show ?thesis
    proof (cases c)
      case (Sub a)
      let ?h1 = "snd (toJSON_h sub (folders h a) h)"
      have "folders ?h1 = folders h" using toJSON_h_frame[of sub "folders h a" h] by simp
      then have "shaped_h ?h1 rest es"
        using "3.prems" shaped_h_same_folders[of ?h1 h rest es] by simp
      then show ?thesis
        using Some Sub "3.prems" "3.IH"(1)[of h "folders h a"] "3.IH"(2)[of ?h1 es]
        by (simp add: toJSON_h_folder)
    qed (use Some "3.prems" in simp_all)
  qed
qed

lemma bounds_join:
  fixes n :: nat
  assumes "n \<le> n1" "n1 \<le> n'" "A \<subseteq> {n ..< n1}" "B \<subseteq> {n1 ..< n'}"
  shows "A \<union> B \<subseteq> {n ..< n'}"
proof
  fix x assume "x \<in> A \<union> B"
  then consider "x \<in> A" | "x \<in> B" by auto
  then show "x \<in> {n ..< n'}"
  proof cases
    case 1 then have "n \<le> x \<and> x < n1" using assms(3) by auto
    then show ?thesis using assms(2) by simp
  next
    case 2 then have "n1 \<le> x \<and> x < n'" using assms(4) by auto
    then show ?thesis using assms(1) by simp
  qed
qed

lemma toJSON_h_json:
  "box_addrs (folder_tree h sch es) \<subseteq> {..< next_free h} \<Longrightarrow>
   snap_json (boxes (snd (toJSON_h sch es h))) (fst (toJSON_h sch es h)) =
     tree_json (boxes h) (folder_tree h sch es) \<and>
   snap_boxes (fst (toJSON_h sch es h)) \<subseteq> {next_free h ..< next_free (snd (toJSON_h sch es h))}"
proof (induction sch arbitrary: es h rule: distinct_keys.induct)
  case 1
  then show ?case by simp
next
  case (2 k e rest)
  show ?case
  proof (cases "map_of es k")
    case None
    then show ?thesis using "2.IH"[of h es] "2.prems" by (simp add: toJSON_h_entry)
  next
    case (Some c)
    show ?thesis
    proof (cases c)
      case (Inline p)
      then show ?thesis using Some "2.IH"[of h es] "2.prems" by (simp add: toJSON_h_entry)
    next
      case (Boxed b)
      let ?n = "next_free h"
      let ?h1 = "snd (alloc_box (boxes h b) h)"
      let ?r = "fst (toJSON_h rest es ?h1)"
      let ?h' = "snd (toJSON_h rest es ?h1)"
      let ?Tr = "folder_tree h rest es"
      have f1: "folders ?h1 = folders h" by (simp add: alloc_box_def)
      have n1: "next_free ?h1 = Suc ?n" by (simp add: alloc_box_def)
      have t1: "folder_tree ?h1 rest es = ?Tr" using f1 by (rule folder_tree_same_folders)
      have bt: "box_addrs ?Tr \<subseteq> {..< ?n}" and bb: "b < ?n"
        using "2.prems" Some Boxed by simp_all
      have p1: "box_addrs (folder_tree ?h1 rest es) \<subseteq> {..< next_free ?h1}"
        unfolding t1 n1 using bt by auto
      note r = "2.IH"[OF p1, unfolded t1 n1]
      note fr = toJSON_h_frame[of rest es ?h1, unfolded n1]
      have j1: "tree_json (boxes ?h1) ?Tr = tree_json (boxes h) ?Tr"
        by (rule tree_json_cong) (use bt in \<open>auto simp add: alloc_box_def\<close>)
      have j2: "boxes ?h' ?n = boxes h b" using fr by (simp add: alloc_box_def)
      have e: "toJSON_h ((k, PieceEntry e) # rest) es h = ((k, SBox ?n) # ?r, ?h')"
        using Some Boxed by (simp add: toJSON_h_entry)
      have T: "folder_tree h ((k, PieceEntry e) # rest) es = (k, LBox b) # ?Tr"
        using Some Boxed by simp
      have m: "Suc ?n \<le> next_free ?h'" using fr by simp
      have sb: "insert ?n (snap_boxes ?r) \<subseteq> {?n ..< next_free ?h'}"
        using r m by auto
      show ?thesis unfolding e T using r j1 j2 sb by simp
    next
      case (Sub a)
      then show ?thesis using Some "2.IH"[of h es] "2.prems" by (simp add: toJSON_h_entry)
    qed
  qed
next
  case (3 k sub rest)
  show ?case
  proof (cases "map_of es k")
    case None
    then show ?thesis using "3.IH"(2)[of h es] "3.prems" by (simp add: toJSON_h_folder)
  next
    case (Some c)
    show ?thesis
    proof (cases c)
      case (Inline p)
      then show ?thesis using Some "3.IH"(2)[of h es] "3.prems" by (simp add: toJSON_h_folder)
    next
      case (Boxed b)
      then show ?thesis using Some "3.IH"(2)[of h es] "3.prems" by (simp add: toJSON_h_folder)
    next
      case (Sub a)
      let ?n = "next_free h"
      let ?d = "fst (toJSON_h sub (folders h a) h)"
      let ?h1 = "snd (toJSON_h sub (folders h a) h)"
      let ?r = "fst (toJSON_h rest es ?h1)"
      let ?h' = "snd (toJSON_h rest es ?h1)"
      let ?Ts = "folder_tree h sub (folders h a)"
      let ?Tr = "folder_tree h rest es"
      have T: "folder_tree h ((k, PieceFolder sub) # rest) es = (k, LSub a ?Ts) # ?Tr"
        using Some Sub by simp
      have e: "toJSON_h ((k, PieceFolder sub) # rest) es h = ((k, SObj ?d) # ?r, ?h')"
        using Some Sub by (simp add: toJSON_h_folder)
      have bs: "box_addrs ?Ts \<subseteq> {..< ?n}" and bt: "box_addrs ?Tr \<subseteq> {..< ?n}"
        using "3.prems" unfolding T by simp_all
      note s = "3.IH"(1)[OF bs]
      note f1 = toJSON_h_frame[of sub "folders h a" h]
      have t1: "folder_tree ?h1 rest es = ?Tr"
        by (rule folder_tree_same_folders) (use f1 in simp)
      have p1: "box_addrs (folder_tree ?h1 rest es) \<subseteq> {..< next_free ?h1}"
        unfolding t1 using bt f1 by auto
      note r = "3.IH"(2)[OF p1, unfolded t1]
      note f2 = toJSON_h_frame[of rest es ?h1]
      have j1: "tree_json (boxes ?h1) ?Tr = tree_json (boxes h) ?Tr"
        by (rule tree_json_cong) (use bt f1 in auto)
      have j2: "snap_json (boxes ?h') ?d = snap_json (boxes ?h1) ?d"
        by (rule snap_json_cong) (use s f2 in auto)
      have sb: "snap_boxes ?d \<union> snap_boxes ?r \<subseteq> {?n ..< next_free ?h'}"
      proof -
        have "next_free h \<le> next_free ?h1" "next_free ?h1 \<le> next_free ?h'"
          using f1 f2 by simp_all
        moreover have "snap_boxes ?d \<subseteq> {?n ..< next_free ?h1}" using s by simp
        moreover have "snap_boxes ?r \<subseteq> {next_free ?h1 ..< next_free ?h'}" using r by simp
        ultimately show ?thesis by (rule bounds_join)
      qed
      show ?thesis unfolding e T using s r j1 j2 sb by simp
    qed
  qed
qed

section \<open>Lemmas: patching a snapshot into a folder\<close>

lemma snap_shaped_nil:
  "snap_shaped [] d \<Longrightarrow> d = []"
  by (cases d) simp_all

lemma snap_shaped_entry:
  "snap_shaped ((k, PieceEntry e) # rest) d \<Longrightarrow>
   \<exists>v drest. d = (k, v) # drest \<and> ((\<exists>p. v = SPrim p) \<or> (\<exists>b. v = SBox b)) \<and>
     snap_shaped rest drest"
  by (erule snap_shaped.elims) auto

lemma snap_shaped_folder:
  "snap_shaped ((k, PieceFolder sub) # rest) d \<Longrightarrow>
   \<exists>ds drest. d = (k, SObj ds) # drest \<and> snap_shaped sub ds \<and> snap_shaped rest drest"
  by (erule snap_shaped.elims) auto

lemma shaped_h_entry:
  "shaped_h h ((k, PieceEntry e) # rest) es \<Longrightarrow>
   ((\<exists>p. map_of es k = Some (Inline p)) \<or> (\<exists>b. map_of es k = Some (Boxed b))) \<and>
   shaped_h h rest es"
  by (auto split: option.splits child.splits)

lemma shaped_h_folder:
  "shaped_h h ((k, PieceFolder sub) # rest) es \<Longrightarrow>
   \<exists>b. map_of es k = Some (Sub b) \<and> shaped_h h sub (folders h b) \<and> shaped_h h rest es"
  by (auto split: option.splits child.splits)

lemma patch_h_leaf:
  assumes "(\<exists>p. map_of (folders h a) k = Some (Inline p)) \<or>
           (\<exists>b. map_of (folders h a) k = Some (Boxed b))"
    and "(\<exists>p. v = SPrim p) \<or> (\<exists>b. v = SBox b)"
  shows "\<exists>c. patch_h a ((k, v) # drest) h = patch_h a drest (set_child a k c h) \<and>
           ((\<exists>p. c = Inline p \<and> v = SPrim p) \<or> (\<exists>b. c = Boxed b \<and> v = SBox b))"
  using assms by auto

lemma patch_h_sub:
  "map_of (folders h a) k = Some (Sub b) \<Longrightarrow>
   patch_h a ((k, SObj ds) # drest) h = patch_h a drest (patch_h b ds h)"
  by simp

declare patch_h.simps(2) [simp del]

lemma patch_h_effect:
  "distinct_keys sch \<Longrightarrow> snap_shaped sch d \<Longrightarrow> shaped_h h sch (folders h a) \<Longrightarrow>
   distinct (sub_addrs (folder_tree h sch (folders h a))) \<Longrightarrow>
   a \<notin> set (sub_addrs (folder_tree h sch (folders h a))) \<Longrightarrow>
   boxes (patch_h a d h) = boxes h \<and>
   obj_fields (patch_h a d h) = obj_fields h \<and>
   next_free (patch_h a d h) = next_free h \<and>
   (\<forall>x. x \<noteq> a \<and> x \<notin> set (sub_addrs (folder_tree h sch (folders h a))) \<longrightarrow>
        folders (patch_h a d h) x = folders h x) \<and>
   (\<forall>k. k \<notin> fst ` set sch \<longrightarrow>
        map_of (folders (patch_h a d h) a) k = map_of (folders h a) k) \<and>
   sub_addrs (folder_tree (patch_h a d h) sch (folders (patch_h a d h) a)) =
     sub_addrs (folder_tree h sch (folders h a)) \<and>
   box_addrs (folder_tree (patch_h a d h) sch (folders (patch_h a d h) a)) = snap_boxes d \<and>
   shaped_h (patch_h a d h) sch (folders (patch_h a d h) a) \<and>
   (\<forall>bx. tree_json bx (folder_tree (patch_h a d h) sch (folders (patch_h a d h) a)) =
         snap_json bx d)"
proof (induction sch arbitrary: a d h rule: distinct_keys.induct)
  case 1
  have "d = []" using "1.prems"(2) by (rule snap_shaped_nil)
  then show ?case by simp
next
  case (2 k e rest)
  have kr: "k \<notin> fst ` set rest" and dr: "distinct_keys rest" using "2.prems"(1) by simp_all
  obtain v drest where d: "d = (k, v) # drest"
    and v: "(\<exists>p. v = SPrim p) \<or> (\<exists>b. v = SBox b)" and sr: "snap_shaped rest drest"
    using snap_shaped_entry[OF "2.prems"(2)] by blast
  have m0: "(\<exists>p. map_of (folders h a) k = Some (Inline p)) \<or>
            (\<exists>b. map_of (folders h a) k = Some (Boxed b))"
    and hr: "shaped_h h rest (folders h a)"
    using shaped_h_entry[OF "2.prems"(3)] by blast+
  obtain c where pc: "patch_h a d h = patch_h a drest (set_child a k c h)"
    and c: "(\<exists>p. c = Inline p \<and> v = SPrim p) \<or> (\<exists>b. c = Boxed b \<and> v = SBox b)"
    using patch_h_leaf[OF m0 v, of drest] unfolding d by blast
  let ?Tr = "folder_tree h rest (folders h a)"
  let ?h0 = "set_child a k c h"
  let ?h' = "patch_h a drest ?h0"
  let ?Tr' = "folder_tree ?h' rest (folders ?h' a)"
  have st: "sub_addrs (folder_tree h ((k, PieceEntry e) # rest) (folders h a)) = sub_addrs ?Tr"
    using m0 by auto
  have an: "a \<notin> set (sub_addrs ?Tr)" and dt: "distinct (sub_addrs ?Tr)"
    using "2.prems"(4,5) unfolding st by simp_all
  have km: "\<forall>k' \<in> fst ` set rest. map_of (folders ?h0 a) k' = map_of (folders h a) k'"
    using kr by (auto simp add: set_child_simps update_conv')
  have fx: "\<forall>x \<in> set (sub_addrs ?Tr). folders ?h0 x = folders h x"
    using an by (auto simp add: set_child_simps)
  have t0: "folder_tree ?h0 rest (folders ?h0 a) = ?Tr"
    using folder_tree_cong[OF km fx] .
  have s0: "shaped_h ?h0 rest (folders ?h0 a)"
    using shaped_h_cong[OF km fx] hr by simp
  note IH = "2.IH"[OF dr sr s0, unfolded t0, OF dt an]
  have k': "map_of (folders ?h' a) k = Some c"
    using IH kr by (simp add: set_child_simps update_conv')
  have T': "folder_tree ?h' ((k, PieceEntry e) # rest) (folders ?h' a) =
              (case c of Inline p \<Rightarrow> [(k, LPrim p)] | Boxed b \<Rightarrow> [(k, LBox b)] | Sub b \<Rightarrow> []) @ ?Tr'"
    using k' by (simp split: child.splits)
  have 1: "boxes ?h' = boxes h" "obj_fields ?h' = obj_fields h" "next_free ?h' = next_free h"
    using IH by (simp_all add: set_child_simps)
  have 2: "\<forall>x. x \<noteq> a \<and> x \<notin> set (sub_addrs ?Tr) \<longrightarrow> folders ?h' x = folders h x"
    using IH by (simp add: set_child_simps)
  have 3: "\<forall>k'. k' \<notin> fst ` set ((k, PieceEntry e) # rest) \<longrightarrow>
             map_of (folders ?h' a) k' = map_of (folders h a) k'"
    using IH by (simp add: set_child_simps update_conv')
  have 4: "sub_addrs (folder_tree ?h' ((k, PieceEntry e) # rest) (folders ?h' a)) = sub_addrs ?Tr"
    unfolding T' using IH c by auto
  have 5: "box_addrs (folder_tree ?h' ((k, PieceEntry e) # rest) (folders ?h' a)) = snap_boxes d"
    unfolding T' d using IH c by auto
  have 6: "\<forall>bx. tree_json bx (folder_tree ?h' ((k, PieceEntry e) # rest) (folders ?h' a)) =
             snap_json bx d"
    unfolding T' d using IH c by auto
  have 7: "shaped_h ?h' ((k, PieceEntry e) # rest) (folders ?h' a)"
    using k' c IH by auto
  show ?case unfolding pc st using 1 2 3 4[unfolded st] 5 6 7 by blast
next
  case (3 k sub rest)
  have kr: "k \<notin> fst ` set rest" and ds: "distinct_keys sub" and dr: "distinct_keys rest"
    using "3.prems"(1) by simp_all
  obtain dsub drest where d: "d = (k, SObj dsub) # drest"
    and ss: "snap_shaped sub dsub" and sr: "snap_shaped rest drest"
    using snap_shaped_folder[OF "3.prems"(2)] by blast
  obtain b where m0: "map_of (folders h a) k = Some (Sub b)"
    and hs: "shaped_h h sub (folders h b)" and hr: "shaped_h h rest (folders h a)"
    using shaped_h_folder[OF "3.prems"(3)] by blast
  let ?Ts = "folder_tree h sub (folders h b)"
  let ?Tr = "folder_tree h rest (folders h a)"
  let ?h1 = "patch_h b dsub h"
  let ?h' = "patch_h a drest ?h1"
  let ?Ts1 = "folder_tree ?h1 sub (folders ?h1 b)"
  let ?Tr' = "folder_tree ?h' rest (folders ?h' a)"
  have pc: "patch_h a d h = ?h'" unfolding d using m0 by (rule patch_h_sub)
  have st: "sub_addrs (folder_tree h ((k, PieceFolder sub) # rest) (folders h a)) =
              b # sub_addrs ?Ts @ sub_addrs ?Tr"
    using m0 by simp
  have dall: "distinct (b # sub_addrs ?Ts @ sub_addrs ?Tr)"
    and aall: "a \<notin> set (b # sub_addrs ?Ts @ sub_addrs ?Tr)"
    using "3.prems"(4,5) unfolding st by simp_all
  have dts: "distinct (sub_addrs ?Ts)" and bn: "b \<notin> set (sub_addrs ?Ts)"
    and dtr: "distinct (sub_addrs ?Tr)" and an: "a \<notin> set (sub_addrs ?Tr)"
    and ab: "a \<noteq> b" and ans: "a \<notin> set (sub_addrs ?Ts)"
    and bnr: "b \<notin> set (sub_addrs ?Tr)"
    and disj: "set (sub_addrs ?Ts) \<inter> set (sub_addrs ?Tr) = {}"
    using dall aall by auto
  note S = "3.IH"(1)[OF ds ss hs dts bn]
  have fa1: "folders ?h1 a = folders h a" using S ab ans by simp
  have fx1: "\<forall>x \<in> set (sub_addrs ?Tr). folders ?h1 x = folders h x"
    using S bnr disj by auto
  have t1: "folder_tree ?h1 rest (folders ?h1 a) = ?Tr"
    using folder_tree_frame[OF fa1 fx1] .
  have s1: "shaped_h ?h1 rest (folders ?h1 a)"
    unfolding fa1 using shaped_h_cong[of rest "folders h a" "folders h a" h ?h1] fx1 hr by simp
  note R = "3.IH"(2)[OF dr sr s1, unfolded t1, OF dtr an]
  have k': "map_of (folders ?h' a) k = Some (Sub b)"
    using R kr fa1 m0 by simp
  have fb: "folders ?h' b = folders ?h1 b" using R ab bnr by simp
  have sts: "sub_addrs ?Ts1 = sub_addrs ?Ts" using S by simp
  have fxs: "\<forall>x \<in> set (sub_addrs ?Ts1). folders ?h' x = folders ?h1 x"
    unfolding sts using R ans disj by auto
  have ts': "folder_tree ?h' sub (folders ?h' b) = ?Ts1"
    using folder_tree_frame[OF fb fxs] .
  have T': "folder_tree ?h' ((k, PieceFolder sub) # rest) (folders ?h' a) =
              (k, LSub b ?Ts1) # ?Tr'"
    using k' ts' by simp
  have 1: "boxes ?h' = boxes h" "obj_fields ?h' = obj_fields h" "next_free ?h' = next_free h"
    using S R by simp_all
  have 2: "\<forall>x. x \<noteq> a \<and> x \<notin> set (b # sub_addrs ?Ts @ sub_addrs ?Tr) \<longrightarrow>
             folders ?h' x = folders h x"
    using S R by simp
  have 3: "\<forall>k'. k' \<notin> fst ` set ((k, PieceFolder sub) # rest) \<longrightarrow>
             map_of (folders ?h' a) k' = map_of (folders h a) k'"
    using R fa1 by simp
  have 4: "sub_addrs (folder_tree ?h' ((k, PieceFolder sub) # rest) (folders ?h' a)) =
             b # sub_addrs ?Ts @ sub_addrs ?Tr"
    unfolding T' using S R by simp
  have 5: "box_addrs (folder_tree ?h' ((k, PieceFolder sub) # rest) (folders ?h' a)) =
             snap_boxes d"
    unfolding T' d using S R by simp
  have 6: "\<forall>bx. tree_json bx (folder_tree ?h' ((k, PieceFolder sub) # rest) (folders ?h' a)) =
             snap_json bx d"
    unfolding T' d using S R by simp
  have 7: "shaped_h ?h' ((k, PieceFolder sub) # rest) (folders ?h' a)"
  proof -
    have "shaped_h ?h' sub (folders ?h1 b) = shaped_h ?h1 sub (folders ?h1 b)"
      using shaped_h_cong[of sub "folders ?h1 b" "folders ?h1 b" ?h1 ?h'] fxs by simp
    then have "shaped_h ?h' sub (folders ?h' b)" unfolding fb using S by simp
    then show ?thesis using k' R by simp
  qed
  show ?case unfolding pc st using 1 2 3 4 5 6 7 by blast
qed

section \<open>Lemmas: an entity is read from the cells it owns\<close>

lemma owned_frame:
  assumes f: "obj_fields h' a = obj_fields h a"
    and o: "\<forall>x \<in> owned h a. folders h' x = folders h x \<and> boxes h' x = boxes h x"
  shows "folder_tree h' (fld_schema (obj_fields h' a)) (folders h' a) =
           folder_tree h (fld_schema (obj_fields h a)) (folders h a)"
    and "folder_json h' a = folder_json h a"
    and "owned h' a = owned h a"
    and "shaped_h h' (fld_schema (obj_fields h' a)) (folders h' a) =
           shaped_h h (fld_schema (obj_fields h a)) (folders h a)"
proof -
  let ?sch = "fld_schema (obj_fields h a)"
  let ?T = "folder_tree h ?sch (folders h a)"
  have fa: "folders h' a = folders h a" using o by (simp add: owned_def)
  have fx: "\<forall>x \<in> set (sub_addrs ?T). folders h' x = folders h x"
    using o by (simp add: owned_def)
  have bx: "\<forall>x \<in> box_addrs ?T. boxes h' x = boxes h x"
    using o by (simp add: owned_def)
  show t: "folder_tree h' (fld_schema (obj_fields h' a)) (folders h' a) = ?T"
    unfolding f using folder_tree_frame[OF fa fx] .
  show "folder_json h' a = folder_json h a"
    unfolding folder_json_def t using tree_json_cong[OF bx] .
  show "owned h' a = owned h a"
    unfolding owned_def t ..
  show "shaped_h h' (fld_schema (obj_fields h' a)) (folders h' a) = shaped_h h ?sch (folders h a)"
    unfolding f fa using shaped_h_cong[of ?sch "folders h a" "folders h a" h h'] fx by simp
qed

lemma heap_inv_frame:
  assumes "heap_inv h a" and "next_free h \<le> next_free h'"
    and "obj_fields h' a = obj_fields h a"
    and "\<forall>x \<in> owned h a. folders h' x = folders h x \<and> boxes h' x = boxes h x"
  shows "heap_inv h' a"
  using assms(1,2) owned_frame(3,4)[OF assms(3,4)] assms(3)
  unfolding heap_inv_def by auto

lemma toJSON_value_folder_json:
  "owned h a \<subseteq> {..< next_free h} \<Longrightarrow> toJSON_value h a = folder_json h a"
  using toJSON_h_json[of h "fld_schema (obj_fields h a)" "folders h a"]
  by (simp add: toJSON_value_def folder_json_def owned_def split_beta)


section \<open>Lemmas: what clone writes\<close>

lemma clone_h_effect:
  assumes inv: "heap_inv h this" and cl: "clone_h this h = (c, h')"
  shows "c = next_free h"
    and "next_free h < next_free h'"
    and "\<forall>x < next_free h. folders h' x = folders h x \<and> boxes h' x = boxes h x \<and>
           obj_fields h' x = obj_fields h x"
    and "obj_fields h' c = (obj_fields h this)\<lparr>fld_status := Unsynchronized\<rparr>"
    and "owned h' c \<subseteq> {next_free h ..< next_free h'}"
    and "folder_json h' c = folder_json h this"
    and "heap_inv h' c"
    and "(c, h') =
           (let (c, h1) = new_Settings_h (fld_gateway (obj_fields h this))
                            (fld_target (obj_fields h this)) (fld_ident (obj_fields h this)) h;
                (d, h2) = toJSON_h (fld_schema (obj_fields h this)) (folders h this) h1
            in (c, patch_h c d h2))"
proof -
  define n where "n = next_free h"
  define sch where "sch = fld_schema (obj_fields h this)"
  define fc where "fc = (obj_fields h this)\<lparr>fld_status := Unsynchronized\<rparr>"
  define ha where "ha = h\<lparr>obj_fields := (obj_fields h)(n := fc),
                           folders := (folders h)(n := []), next_free := Suc n\<rparr>"
  define h1 where "h1 = init_h n sch ha"
  define dat where "dat = fst (toJSON_h sch (folders h1 this) h1)"
  define h2 where "h2 = snd (toJSON_h sch (folders h1 this) h1)"
  define T0 where "T0 = folder_tree h sch (folders h this)"
  define Tc where "Tc = folder_tree h1 sch (folders h1 n)"
  have i: "fld_schema (obj_fields h this) = gateway_schema (fld_gateway (obj_fields h this))"
    "distinct_keys (fld_schema (obj_fields h this))"
    "shaped_h h (fld_schema (obj_fields h this)) (folders h this)"
    "owned h this \<subseteq> {..< next_free h}"
    using inv unfolding heap_inv_def by blast+
  have gs: "gateway_schema (fld_gateway (obj_fields h this)) = sch"
    unfolding sch_def by (rule i(1)[symmetric])
  have dk: "distinct_keys sch" unfolding sch_def by (rule i(2))
  have sh: "shaped_h h sch (folders h this)" unfolding sch_def by (rule i(3))
  have ow: "owned h this \<subseteq> {..< n}" unfolding n_def by (rule i(4))
  have tn: "this < n" and T0b: "set (sub_addrs T0) \<union> box_addrs T0 \<subseteq> {..< n}"
    using ow by (simp_all add: owned_def T0_def sch_def)
  have fc_eq: "fc = \<lparr>fld_schema = gateway_schema (fld_gateway (obj_fields h this)),
                     fld_ident = fld_ident (obj_fields h this),
                     fld_gateway = fld_gateway (obj_fields h this),
                     fld_target = fld_target (obj_fields h this),
                     fld_status = Unsynchronized\<rparr>"
    unfolding gs by (simp add: fc_def sch_def)
  have ns: "new_Settings_h (fld_gateway (obj_fields h this)) (fld_target (obj_fields h this))
              (fld_ident (obj_fields h this)) h = (n, h1)"
    by (simp add: new_Settings_h_def Let_def fc_eq[symmetric] n_def[symmetric] ha_def[symmetric]
        h1_def) (simp add: ha_def fc_def sch_def)
  have ha_s: "next_free ha = Suc n" "boxes ha = boxes h"
    "\<And>x. x \<noteq> n \<Longrightarrow> folders ha x = folders h x"
    "\<And>x. x \<noteq> n \<Longrightarrow> obj_fields ha x = obj_fields h x"
    "obj_fields ha n = fc"
    by (simp_all add: ha_def)
  have na: "n < next_free ha" by (simp add: ha_s)
  note F1 = init_h_frame[OF na, of sch, folded h1_def, unfolded ha_s(1)]
  note I1 = init_h_tree[OF na dk, folded h1_def, folded Tc_def, unfolded ha_s(1)]
  have o1: "obj_fields h1 = obj_fields ha" using F1 by simp
  have s1: "fld_schema (obj_fields h1 this) = sch"
    using tn by (simp add: o1 ha_s sch_def)
  have cl': "clone_h this h = (n, patch_h n dat h2)"
    by (simp add: clone_h_def Let_def ns s1 split_beta dat_def h2_def)
  have c: "c = n" and h': "h' = patch_h n dat h2" using cl cl' by auto
  have low1: "\<forall>x < n. folders h1 x = folders h x \<and> boxes h1 x = boxes h x \<and>
                obj_fields h1 x = obj_fields h x"
    using F1 by (simp add: ha_s o1)
  have t01: "folder_tree h1 sch (folders h1 this) = T0"
    unfolding T0_def by (rule folder_tree_frame) (use low1 tn T0b in \<open>auto simp add: T0_def\<close>)
  have sh1: "shaped_h h1 sch (folders h1 this)"
  proof -
    have "folders h1 this = folders h this" using low1 tn by simp
    moreover have "\<forall>x \<in> set (sub_addrs (folder_tree h sch (folders h this))).
                     folders h1 x = folders h x"
      using low1 T0b by (auto simp add: T0_def)
    ultimately show ?thesis
      using shaped_h_cong[of sch "folders h this" "folders h this" h h1] sh by simp
  qed
  note F2 = toJSON_h_frame[of sch "folders h1 this" h1, folded h2_def]
  have m1: "Suc n \<le> next_free h1" using F1 by simp
  have b01: "box_addrs (folder_tree h1 sch (folders h1 this)) \<subseteq> {..< next_free h1}"
    unfolding t01 using T0b m1 by auto
  note J = toJSON_h_json[OF b01, folded dat_def h2_def, unfolded t01]
  note SS = toJSON_h_shaped[OF sh1, folded dat_def]
  have j0: "tree_json (boxes h1) T0 = tree_json (boxes h) T0"
    by (rule tree_json_cong) (use low1 T0b in auto)
  have f2: "folders h2 = folders h1" using F2 by simp
  have tc2: "folder_tree h2 sch (folders h2 n) = Tc"
    unfolding Tc_def f2 using f2 by (rule folder_tree_same_folders)
  have sc2: "shaped_h h2 sch (folders h2 n)"
    unfolding f2 using shaped_h_same_folders[OF f2, of sch "folders h1 n"] I1 by simp
  have dc: "distinct (sub_addrs Tc)" using I1 by simp
  have nc: "n \<notin> set (sub_addrs Tc)" using I1 by auto
  note P = patch_h_effect[OF dk SS sc2, unfolded tc2, OF dc nc, folded h']
  define Tc' where "Tc' = folder_tree h' sch (folders h' n)"
  note P' = P[folded Tc'_def]
  have m2: "next_free h1 \<le> next_free h2" using F2 by simp
  have n': "next_free h' = next_free h2" using P by simp
  have oc: "obj_fields h' n = fc" using P F2 o1 ha_s by simp
  have sc: "fld_schema (obj_fields h' n) = sch" unfolding oc by (simp add: fc_def sch_def)
  have subc: "set (sub_addrs Tc) \<subseteq> {Suc n ..< next_free h1}"
    and boxc: "snap_boxes dat \<subseteq> {next_free h1 ..< next_free h2}"
    using I1 J by simp_all
  show "c = next_free h" using c by (simp add: n_def)
  show "next_free h < next_free h'" using m1 m2 n' by (simp add: n_def)
  show "\<forall>x < next_free h. folders h' x = folders h x \<and> boxes h' x = boxes h x \<and>
          obj_fields h' x = obj_fields h x"
  proof (intro allI impI)
    fix x assume "x < next_free h"
    then have x: "x < n" by (simp add: n_def)
    then have "x \<noteq> n \<and> x \<notin> set (sub_addrs Tc)" using subc by auto
    then have "folders h' x = folders h2 x" using P by simp
    moreover have "boxes h' x = boxes h2 x" "obj_fields h' x = obj_fields h2 x" using P by simp_all
    moreover have "boxes h2 x = boxes h1 x" using F2 x m1 by simp
    moreover have "obj_fields h2 x = obj_fields h1 x" using F2 by simp
    ultimately show "folders h' x = folders h x \<and> boxes h' x = boxes h x \<and>
                     obj_fields h' x = obj_fields h x"
      using low1 x f2 by simp
  qed
  show "obj_fields h' c = (obj_fields h this)\<lparr>fld_status := Unsynchronized\<rparr>"
    unfolding c oc fc_def ..
  have own: "owned h' n = insert n (set (sub_addrs Tc) \<union> snap_boxes dat)"
    unfolding owned_def sc using P' by (simp add: Tc'_def)
  show oc': "owned h' c \<subseteq> {next_free h ..< next_free h'}"
  proof -
    have "n < next_free h'" using m1 m2 n' by simp
    moreover have "set (sub_addrs Tc) \<subseteq> {n ..< next_free h'}"
      using subc m2 n' by auto
    moreover have "snap_boxes dat \<subseteq> {n ..< next_free h'}"
      using boxc m1 n' by auto
    ultimately show ?thesis unfolding c own n_def[symmetric] by auto
  qed
  have "folder_json h' n = snap_json (boxes h') dat"
    unfolding folder_json_def sc using P' by (simp add: Tc'_def)
  also have "\<dots> = snap_json (boxes h2) dat" using P by simp
  also have "\<dots> = tree_json (boxes h) T0" using J j0 by simp
  finally show "folder_json h' c = folder_json h this"
    unfolding c by (simp add: folder_json_def T0_def sch_def)
  have "fld_schema (obj_fields h' n) = gateway_schema (fld_gateway (obj_fields h' n))"
    unfolding oc by (simp add: fc_def gs sch_def)
  moreover have "shaped_h h' sch (folders h' n)" using P by simp
  ultimately show "heap_inv h' c"
    unfolding heap_inv_def c using sc dk oc'[unfolded c] by auto
  have "folders h1 this = folders h this" using low1 tn by simp
  then show "(c, h') =
           (let (c, h1) = new_Settings_h (fld_gateway (obj_fields h this))
                            (fld_target (obj_fields h this)) (fld_ident (obj_fields h this)) h;
                (d, h2) = toJSON_h (fld_schema (obj_fields h this)) (folders h this) h1
            in (c, patch_h c d h2))"
    unfolding ns c h' by (simp add: split_beta dat_def h2_def sch_def)
qed

section \<open>Lemmas: the constructor on the store\<close>

lemma new_Settings_h_inv:
  assumes "distinct_keys (gateway_schema g)"
  shows "heap_inv (snd (new_Settings_h g t i h)) (fst (new_Settings_h g t i h))"
proof -
  define n where "n = next_free h"
  define fc where "fc = \<lparr>fld_schema = gateway_schema g, fld_ident = i, fld_gateway = g,
                          fld_target = t, fld_status = Unsynchronized\<rparr>"
  define ha where "ha = h\<lparr>obj_fields := (obj_fields h)(n := fc),
                           folders := (folders h)(n := []), next_free := Suc n\<rparr>"
  define h1 where "h1 = init_h n (gateway_schema g) ha"
  have ns: "new_Settings_h g t i h = (n, h1)"
    by (simp add: new_Settings_h_def Let_def n_def[symmetric] fc_def[symmetric]
        ha_def[symmetric] h1_def) (simp add: ha_def fc_def)
  have na: "n < next_free ha" by (simp add: ha_def)
  note F = init_h_frame[OF na, of "gateway_schema g", folded h1_def]
  note I = init_h_tree[OF na assms, folded h1_def]
  have o: "obj_fields h1 n = fc" using F by (simp add: ha_def)
  have s: "fld_schema (obj_fields h1 n) = gateway_schema g" unfolding o by (simp add: fc_def)
  have "n < next_free h1" using F na by simp
  moreover have "set (sub_addrs (folder_tree h1 (gateway_schema g) (folders h1 n))) \<union>
                 box_addrs (folder_tree h1 (gateway_schema g) (folders h1 n)) \<subseteq> {..< next_free h1}"
    using I by auto
  ultimately have "owned h1 n \<subseteq> {..< next_free h1}"
    unfolding owned_def s by simp
  then show ?thesis
    unfolding ns heap_inv_def fst_conv snd_conv s using assms I o by (simp add: fc_def)
qed

lemmas demo_h_defs = demo_heap_def demo_cloned_def clone_h_def new_Settings_h_def empty_heap_def list_gateway_def
  list_schema_def alloc_box_def alloc_folder_def set_child_def Let_def toJSON_h_entry toJSON_h_folder
  patch_h.simps(2) split_beta

section \<open>Claims about Settings.clone\<close>

text \<open>
  Claim C8.  On the store, \<open>clone()\<close> of an entity that is as the methods of \<open>Settings\<close>
  leave it (\<open>heap_inv\<close>: its folder has the shape of its schema, and its cells have been
  handed out) constructs a new \<open>Settings\<close>, under a reference that was not in use, with
  the same gateway, target and id, and applies \<open>_patch(this.toJSON())\<close> to it.  Right
  after cloning, the clone's \<open>toJSON()\<close> equals the original's, which is what it was
  before.  The copy is structurally independent: the clone and the original have no
  cell in common (no sub-folder, no array, no plain object), and whatever is written to
  the cells of the clone or to cells handed out later, the original's \<open>toJSON()\<close> stays
  what it was.  Both entities satisfy \<open>heap_inv\<close> again, so that the same holds for a
  clone of the clone.
\<close>

theorem clone_copies_folder:
  "heap_inv h this \<Longrightarrow> clone_h this h = (c, h') \<Longrightarrow>
   c = next_free h \<and> c \<noteq> this \<and>
   fld_gateway (obj_fields h' c) = fld_gateway (obj_fields h this) \<and>
   fld_target (obj_fields h' c) = fld_target (obj_fields h this) \<and>
   fld_ident (obj_fields h' c) = fld_ident (obj_fields h this) \<and>
   (c, h') =
     (let (c, h1) = new_Settings_h (fld_gateway (obj_fields h this))
                      (fld_target (obj_fields h this)) (fld_ident (obj_fields h this)) h;
          (d, h2) = toJSON_h (fld_schema (obj_fields h this)) (folders h this) h1
      in (c, patch_h c d h2)) \<and>
   toJSON_value h' c = toJSON_value h' this \<and>
   toJSON_value h' this = toJSON_value h this \<and>
   heap_inv h' c \<and> heap_inv h' this \<and>
   owned h' c \<inter> owned h' this = {} \<and>
   (\<forall>h''. next_free h' \<le> next_free h'' \<and>
          (\<forall>x. x < next_free h' \<and> x \<notin> owned h' c \<longrightarrow>
               folders h'' x = folders h' x \<and> boxes h'' x = boxes h' x \<and>
               obj_fields h'' x = obj_fields h' x) \<longrightarrow>
          toJSON_value h'' this = toJSON_value h this)"
proof -
  assume inv: "heap_inv h this" and cl: "clone_h this h = (c, h')"
  note E = clone_h_effect[OF inv cl]
  have ow: "owned h this \<subseteq> {..< next_free h}" using inv by (simp add: heap_inv_def)
  then have tn: "this < next_free h" by (simp add: owned_def)
  have low: "\<forall>x \<in> owned h this. folders h' x = folders h x \<and> boxes h' x = boxes h x"
    using E(3) ow by auto
  have of: "obj_fields h' this = obj_fields h this" using E(3) tn by simp
  note O = owned_frame[OF of low]
  have le: "next_free h \<le> next_free h'" using E(2) by simp
  have inv_this: "heap_inv h' this" using heap_inv_frame[OF inv le of low] .
  have ow': "owned h' this \<subseteq> {..< next_free h'}" using inv_this by (simp add: heap_inv_def)
  have owc: "owned h' c \<subseteq> {..< next_free h'}" using E(7) by (simp add: heap_inv_def)
  have j_this: "toJSON_value h this = folder_json h this"
    using ow by (rule toJSON_value_folder_json)
  have j_this': "toJSON_value h' this = folder_json h this"
    using toJSON_value_folder_json[OF ow'] O(2) by simp
  have j_c: "toJSON_value h' c = folder_json h this"
    using toJSON_value_folder_json[OF owc] E(6) by simp
  have disj: "owned h' c \<inter> owned h' this = {}"
  proof -
    have "\<forall>x \<in> owned h' this. x < next_free h" using O(3) ow by auto
    moreover have "\<forall>x \<in> owned h' c. next_free h \<le> x" using E(5) by auto
    ultimately show ?thesis by fastforce
  qed
  have indep: "toJSON_value h'' this = toJSON_value h this"
    if n: "next_free h' \<le> next_free h''"
      and fr: "\<forall>x. x < next_free h' \<and> x \<notin> owned h' c \<longrightarrow>
                 folders h'' x = folders h' x \<and> boxes h'' x = boxes h' x \<and>
                 obj_fields h'' x = obj_fields h' x"
    for h''
  proof -
    have out: "\<forall>x \<in> owned h' this. x < next_free h' \<and> x \<notin> owned h' c"
      using ow' disj by auto
    have this_in: "this \<in> owned h' this" by (simp add: owned_def)
    have of'': "obj_fields h'' this = obj_fields h' this" using fr out this_in by blast
    have low'': "\<forall>x \<in> owned h' this. folders h'' x = folders h' x \<and> boxes h'' x = boxes h' x"
      using fr out by blast
    note O'' = owned_frame[OF of'' low'']
    have "owned h'' this \<subseteq> {..< next_free h''}" using O''(3) ow' n by auto
    then have "toJSON_value h'' this = folder_json h'' this" by (rule toJSON_value_folder_json)
    then show ?thesis using O''(2) O(2) j_this by simp
  qed
  have ne: "c \<noteq> this" using E(1) tn by simp
  have flds: "fld_gateway (obj_fields h' c) = fld_gateway (obj_fields h this)"
    "fld_target (obj_fields h' c) = fld_target (obj_fields h this)"
    "fld_ident (obj_fields h' c) = fld_ident (obj_fields h this)"
    using E(4) by simp_all
  show ?thesis
    using E(1) ne flds E(8) j_c j_this' j_this E(7) inv_this disj indep by (simp only:) blast
qed

text \<open>
  Cloning the entity of the concrete store.  The clone is object 3, with id 42 and the
  same snapshot; the original is made of cells 0, 1 and 2, the clone of cells 3, 5 and
  6.  After \<open>y\<close> has been pushed onto the clone's list and the clone's \<open>mod.on\<close> has been
  set, the clone's snapshot shows both writes and the original's is as before.
\<close>

theorem clone_copies_folder_witness:
  "heap_inv demo_heap 0 \<and>
   clone_h 0 demo_heap = (3, demo_cloned) \<and>
   fld_ident (obj_fields demo_cloned 3) = ''42'' \<and>
   toJSON_value demo_cloned 3 =
     [(''prefix'', JStr ''?''), (''tags'', JArr [JStr ''x'']),
      (''mod'', JObj [(''on'', JBool False)])] \<and>
   toJSON_value demo_cloned 0 =
     [(''prefix'', JStr ''?''), (''tags'', JArr [JStr ''x'']),
      (''mod'', JObj [(''on'', JBool False)])] \<and>
   owned demo_cloned 0 = {0, 1, 2} \<and>
   owned demo_cloned 3 = {3, 5, 6} \<and>
   toJSON_value demo_mutated 3 =
     [(''prefix'', JStr ''?''), (''tags'', JArr [JStr ''x'', JStr ''y'']),
      (''mod'', JObj [(''on'', JBool True)])] \<and>
   toJSON_value demo_mutated 0 =
     [(''prefix'', JStr ''?''), (''tags'', JArr [JStr ''x'']),
      (''mod'', JObj [(''on'', JBool False)])]"
proof -
  have inv: "heap_inv demo_heap 0"
    by (simp add: demo_h_defs heap_inv_def owned_def)
  have c: "fst (clone_h 0 demo_heap) = 3" by (simp add: demo_h_defs)
  have cl: "clone_h 0 demo_heap = (3, demo_cloned)"
    unfolding demo_cloned_def c[symmetric] by simp
  note T = clone_copies_folder[OF inv cl]
  have j0: "toJSON_value demo_heap 0 =
     [(''prefix'', JStr ''?''), (''tags'', JArr [JStr ''x'']),
      (''mod'', JObj [(''on'', JBool False)])]"
    by (simp add: demo_h_defs toJSON_value_def)
  have i0: "fld_ident (obj_fields demo_heap 0) = ''42''" by (simp add: demo_h_defs)
  have o0: "owned demo_cloned 0 = {0, 1, 2}"
    by (simp add: demo_h_defs owned_def eval_nat_numeral insert_commute)
  have o3: "owned demo_cloned 3 = {3, 5, 6}"
    by (simp add: demo_h_defs owned_def eval_nat_numeral insert_commute)
  have n: "next_free demo_cloned \<le> next_free demo_mutated"
    by (simp add: demo_mutated_def set_child_def)
  have fr: "\<forall>x. x < next_free demo_cloned \<and> x \<notin> owned demo_cloned 3 \<longrightarrow>
              folders demo_mutated x = folders demo_cloned x \<and>
              boxes demo_mutated x = boxes demo_cloned x \<and>
              obj_fields demo_mutated x = obj_fields demo_cloned x"
    unfolding o3 by (simp add: demo_mutated_def set_child_def)
  have m3: "toJSON_value demo_mutated 3 =
     [(''prefix'', JStr ''?''), (''tags'', JArr [JStr ''x'', JStr ''y'']),
      (''mod'', JObj [(''on'', JBool True)])]"
    by (simp add: demo_h_defs toJSON_value_def demo_mutated_def)
  have m0: "toJSON_value demo_mutated 0 = toJSON_value demo_heap 0"
    using T n fr by blast
  have e1: "fld_ident (obj_fields demo_cloned 3) = fld_ident (obj_fields demo_heap 0)"
    and e2: "toJSON_value demo_cloned 3 = toJSON_value demo_cloned 0"
    and e3: "toJSON_value demo_cloned 0 = toJSON_value demo_heap 0"
    using T by blast+
  show ?thesis
    using inv cl e1 e2 e3 i0 j0 o0 o3 m3 m0 by (simp only:)
qed

text \<open>
  Independence is not built into the store.  The clone made from a snapshot that
  holds the original's own array has the same snapshot as the original but shares
  cell 1 with it, and pushing onto that clone's list changes the original's snapshot.
  It is the structural copy made by \<open>toJSON()\<close> that keeps the two apart.
\<close>

lemma sharing_clone_is_not_independent:
  "toJSON_value demo_sharing_clone 3 = toJSON_value demo_sharing_clone 0 \<and>
   owned demo_sharing_clone 3 \<inter> owned demo_sharing_clone 0 = {1} \<and>
   toJSON_value demo_sharing_write 0 =
     [(''prefix'', JStr ''?''), (''tags'', JArr [JStr ''x'', JStr ''y'']),
      (''mod'', JObj [(''on'', JBool False)])] \<and>
   toJSON_value demo_sharing_write 0 \<noteq> toJSON_value demo_sharing_clone 0"
  by (simp add: demo_h_defs toJSON_value_def demo_sharing_clone_def demo_sharing_write_def
      owned_def eval_nat_numeral)

text \<open>
  Claim C10.  Whatever the status of an entity, its clone has status \<open>Unsynchronized\<close>:
  \<open>clone()\<close> copies the folder's values through the constructor and \<open>_patch\<close>, never
  the synchronization state.
\<close>

theorem clone_is_unsynchronized:
  "existenceStatus (objects (snd (clone this w)) (fst (clone this w))) = Unsynchronized"
  by (simp add: clone_def new_Settings_def Let_def)

section \<open>Claims about Provider.parseUpdateInput\<close>

text \<open>
  Claim C3, as amended.  \<open>parseUpdateInput\<close> returns an input that is not an array
  unchanged.  Given a \<open>SettingsUpdateResults\<close> array whose entry paths are leaves of one
  schema (no path a proper prefix of another) and whose \<open>next\<close> values are not plain
  objects, it produces one nested object that holds, at the path of every change, the
  \<open>next\<close> value of the last change with that path: later entries overwrite earlier
  ones at the same path and sibling paths are kept.  Changes at \<open>a.b\<close> and \<open>a.c\<close> yield
  \<open>{a: {b: vb, c: vc}}\<close>, whatever the two values are.
\<close>

theorem parseUpdateInput_merges_changes:
  "parseUpdateInput (PlainObject obj) = obj \<and>
   (prefix_free (map (\<lambda>c. split_dot (path (entry c))) cs) \<and>
    (\<forall>c \<in> set cs. \<not> isObject (next_value c)) \<longrightarrow>
    (\<forall>c \<in> set cs.
       getPath (parseUpdateInput (Results cs)) (split_dot (path (entry c))) =
         Some (next_value (last [c' \<leftarrow> cs. path (entry c') = path (entry c)])))) \<and>
   parseUpdateInput (Results [change ''a.b'' vb, change ''a.c'' vc]) =
     [(''a'', JObj [(''b'', vb), (''c'', vc)])]"
proof (intro conjI impI ballI)
  show "parseUpdateInput (PlainObject obj) = obj"
    by (simp add: parseUpdateInput_def)
next
  fix c
  assume h: "prefix_free (map (\<lambda>c. split_dot (path (entry c))) cs) \<and>
    (\<forall>c \<in> set cs. \<not> isObject (next_value c))" and c: "c \<in> set cs"
  have "merged (map change_kv cs) (parseUpdateInput (Results cs))"
    using merged_parse h by blast
  moreover have "map_of (rev (map change_kv cs)) (split_dot (path (entry c))) =
     Some (next_value (last [c' \<leftarrow> cs. path (entry c') = path (entry c)]))"
    using last_change[of cs "path (entry c)"] c by blast
  ultimately show "getPath (parseUpdateInput (Results cs)) (split_dot (path (entry c))) =
         Some (next_value (last [c' \<leftarrow> cs. path (entry c') = path (entry c)]))"
    unfolding merged_def by (auto dest: spec[of _ "split_dot (path (entry c))"])
next
  show "parseUpdateInput (Results [change ''a.b'' vb, change ''a.c'' vc]) =
     [(''a'', JObj [(''b'', vb), (''c'', vc)])]"
    by (cases vc) (simp_all add: parseUpdateInput_def makeObject_def change_def)
qed

text \<open>
  Three changes, two of them at \<open>a.b\<close>: the object holds the later value at \<open>a.b\<close> and
  the sibling at \<open>a.c\<close>.
\<close>

theorem parseUpdateInput_merges_changes_witness:
  "prefix_free (map (\<lambda>c. split_dot (path (entry c)))
      [change ''a.b'' (JNum 1), change ''a.c'' (JNum 2), change ''a.b'' (JNum 3)]) \<and>
   getPath (parseUpdateInput (Results
      [change ''a.b'' (JNum 1), change ''a.c'' (JNum 2), change ''a.b'' (JNum 3)])) [''a'', ''b'']
     = Some (JNum 3) \<and>
   getPath (parseUpdateInput (Results
      [change ''a.b'' (JNum 1), change ''a.c'' (JNum 2), change ''a.b'' (JNum 3)])) [''a'', ''c'']
     = Some (JNum 2)"
proof -
  let ?cs = "[change ''a.b'' (JNum 1), change ''a.c'' (JNum 2), change ''a.b'' (JNum 3)]"
  have pf: "prefix_free (map (\<lambda>c. split_dot (path (entry c))) ?cs)"
    by (simp add: prefix_free_def change_def)
  have lf: "\<forall>c \<in> set ?cs. \<not> isObject (next_value c)"
    by (simp add: change_def)
  have all: "\<forall>c \<in> set ?cs.
       getPath (parseUpdateInput (Results ?cs)) (split_dot (path (entry c))) =
         Some (next_value (last [c' \<leftarrow> ?cs. path (entry c') = path (entry c)]))"
    using parseUpdateInput_merges_changes[of "[]" ?cs JNull JNull] pf lf by blast
  have b: "getPath (parseUpdateInput (Results ?cs)) [''a'', ''b''] = Some (JNum 3)"
    using all[rule_format, of "change ''a.b'' (JNum 3)"] by (simp add: change_def)
  have c: "getPath (parseUpdateInput (Results ?cs)) [''a'', ''c''] = Some (JNum 2)"
    using all[rule_format, of "change ''a.c'' (JNum 2)"] by (simp add: change_def)
  show ?thesis using pf b c by simp
qed

text \<open>
  Claim C3 as stated fails on a plain mapping from paths to values: the object
  \<open>{"a.b": 1}\<close> is returned as it is, not as \<open>{a: {b: 1}}\<close>, and holds nothing at the
  path \<open>a.b\<close>.  It also fails for \<open>next\<close> values that are plain objects: of two
  changes at path \<open>a\<close> the later one is merged into the earlier one and does not
  overwrite it.
\<close>

theorem parseUpdateInput_plain_object_not_nested:
  "parseUpdateInput (PlainObject [(''a.b'', JNum 1)]) = [(''a.b'', JNum 1)] \<and>
   parseUpdateInput (PlainObject [(''a.b'', JNum 1)]) \<noteq> [(''a'', JObj [(''b'', JNum 1)])] \<and>
   getPath (parseUpdateInput (PlainObject [(''a.b'', JNum 1)])) (split_dot ''a.b'') = None \<and>
   parseUpdateInput
     (Results [change ''a'' (JObj [(''x'', JNum 1)]), change ''a'' (JObj [(''y'', JNum 2)])]) =
     [(''a'', JObj [(''x'', JNum 1), (''y'', JNum 2)])]"
  by (simp add: parseUpdateInput_def makeObject_def change_def)

end
